theory Spec2Isabelle
  imports Complex_Main
begin

section \<open>Data model\<close>

text \<open>
  The cleaner of \<^verbatim>\<open>OptionsArbitrage.py\<close> works on pandas data frames with the columns
  \<^verbatim>\<open>strike\<close>, \<^verbatim>\<open>bid\<close> and \<^verbatim>\<open>ask\<close> (a column \<^verbatim>\<open>mid\<close> may be present and is never read).
  A data frame is modelled as the list of its rows in row order, each row paired with its
  index label; labels are natural numbers, as the default index and the positions that
  the checkers return are. Floating point numbers are modelled as reals: rounding and the
  IEEE special values are outside the model. Where numpy divides by zero it yields
  \<open>inf\<close> or \<open>nan\<close> and HOL yields 0, so what a checker flags is stated and evaluated
  only for tables on which no divisor is zero (distinct, non-zero strikes); the theorems
  about the loop hold for whatever the checkers flag.

  Exceptions are values: \<open>Inl\<close> of the exception raised, \<open>Inr\<close> of the value returned.
\<close>

datatype error = ValueError | IndexError | KeyError

record quote =
  strike :: real
  bid :: real
  ask :: real

type_synonym dataframe = "(nat \<times> quote) list"

record cleaner =
  Sb :: real
  Sa :: real
  r_rate :: real
  T_mat :: real
  q_yield :: real
  df_r :: real
  df_q :: real

text \<open>\<^verbatim>\<open>OptionsArbitrageCleaner.__init__\<close>\<close>

definition init :: "real \<Rightarrow> real \<Rightarrow> real \<Rightarrow> real \<Rightarrow> real \<Rightarrow> cleaner" where
  "init spot_bid spot_ask r T q =
     \<lparr>Sb = spot_bid, Sa = spot_ask, r_rate = r, T_mat = T, q_yield = q,
      df_r = exp (- r * T), df_q = exp (- q * T)\<rparr>"

subsection \<open>The pandas operations the cleaner uses\<close>

text \<open>\<^verbatim>\<open>df.index\<close> and \<^verbatim>\<open>df['strike'].values\<close>\<close>

definition index :: "dataframe \<Rightarrow> nat list" where
  "index df = map fst df"

definition strikes :: "dataframe \<Rightarrow> real list" where
  "strikes df = map (\<lambda>row. strike (snd row)) df"

text \<open>\<^verbatim>\<open>df.reset_index(drop=True)\<close>: the rows keep their order and are labelled \<open>0, 1, ...\<close>\<close>

definition reset_index :: "dataframe \<Rightarrow> dataframe" where
  "reset_index df = zip [0..<length df] (map snd df)"

text \<open>\<^verbatim>\<open>df.sort_values('strike')\<close>: rows in ascending order of strike. With distinct
  strikes that order is unique; rows of equal strike are kept in their former order here.\<close>

definition sort_values :: "dataframe \<Rightarrow> dataframe" where
  "sort_values df = sort_key (\<lambda>row. strike (snd row)) df"

text \<open>\<^verbatim>\<open>df.loc[i, ...]\<close> on a frame whose index was just reset: the row at position \<open>i\<close>.\<close>

definition loc :: "dataframe \<Rightarrow> nat \<Rightarrow> quote" where
  "loc df i = snd (df ! i)"

text \<open>\<^verbatim>\<open>df.drop(index=labels)\<close>: every row whose label is listed goes; a label that is
  not in the index raises \<^verbatim>\<open>KeyError\<close>.\<close>

definition drop_rows :: "dataframe \<Rightarrow> nat list \<Rightarrow> error + dataframe" where
  "drop_rows df labels =
     (if list_all (\<lambda>l. l \<in> set (index df)) labels
      then Inr (filter (\<lambda>row. fst row \<notin> set labels) df)
      else Inl KeyError)"

text \<open>\<^verbatim>\<open>np.argmin\<close>: the position of the first occurrence of the least value;
  \<^verbatim>\<open>ValueError\<close> on an empty array.\<close>

fun argmin_scan :: "real list \<Rightarrow> nat \<Rightarrow> nat \<Rightarrow> real \<Rightarrow> nat" where
  "argmin_scan [] i best least = best"
| "argmin_scan (x # xs) i best least =
     (if x < least then argmin_scan xs (Suc i) i x else argmin_scan xs (Suc i) best least)"

definition argmin :: "real list \<Rightarrow> error + nat" where
  "argmin xs = (case xs of [] \<Rightarrow> Inl ValueError | x # ys \<Rightarrow> Inr (argmin_scan ys 1 0 x))"

section \<open>ATM selection\<close>

definition identify_atm_strike :: "cleaner \<Rightarrow> dataframe \<Rightarrow> error + real" where
  "identify_atm_strike c df =
     (let spot_mid = (Sb c + Sa c) / 2 in
      case argmin (map (\<lambda>k. \<bar>k - spot_mid\<bar>) (strikes df)) of
        Inl e \<Rightarrow> Inl e
      | Inr atm_idx \<Rightarrow> Inr (strikes df ! atm_idx))"

section \<open>The three checkers\<close>

definition eps :: real where
  "eps = 1 / 10 ^ 10"

text \<open>One pass of the monotonicity loop, at position \<open>i\<close> of the sorted view.\<close>

definition monotonicity_at :: "dataframe \<Rightarrow> string \<Rightarrow> nat \<Rightarrow> nat list" where
  "monotonicity_at df_sorted price_type i =
     (if price_type = ''call''
      then (if ask (loc df_sorted i) < bid (loc df_sorted (i + 1))
            then [index df_sorted ! (i + 1)] else [])
      else (if bid (loc df_sorted i) > ask (loc df_sorted (i + 1))
            then [index df_sorted ! (i + 1)] else []))"

text \<open>One pass of the convexity loop, at the middle position \<open>i\<close> of a triplet.\<close>

definition convexity_at :: "dataframe \<Rightarrow> string \<Rightarrow> nat \<Rightarrow> nat list" where
  "convexity_at df_sorted price_type i =
     (let K1 = strike (loc df_sorted (i - 1)); K2 = strike (loc df_sorted i);
          K3 = strike (loc df_sorted (i + 1))
      in if price_type = ''call''
         then (let C1 = ask (loc df_sorted (i - 1)); C2 = bid (loc df_sorted i);
                   C3 = ask (loc df_sorted (i + 1));
                   slope1 = (C2 - C1) / (K2 - K1);
                   slope2 = (C3 - C2) / (K3 - K2)
               in if slope1 > slope2 + eps then [index df_sorted ! i] else [])
         else (let P1 = bid (loc df_sorted (i - 1)); P2 = ask (loc df_sorted i);
                   P3 = bid (loc df_sorted (i + 1));
                   slope1 = (P2 - P1) / (K2 - K1);
                   slope2 = (P3 - P2) / (K3 - K2)
               in if slope1 > slope2 + eps then [index df_sorted ! i] else []))"

definition check_vertical_no_arb :: "dataframe \<Rightarrow> string \<Rightarrow> nat list" where
  "check_vertical_no_arb df price_type =
     (let df_sorted = reset_index (sort_values df);
          n = length df_sorted
      in remdups (concat (map (monotonicity_at df_sorted price_type) [0..<n - 1])
                  @ concat (map (convexity_at df_sorted price_type) [1..<n - 1])))"

text \<open>One pass of the butterfly loop. Both branches of the source compute the same cost.\<close>

definition butterfly_at :: "dataframe \<Rightarrow> string \<Rightarrow> nat \<Rightarrow> nat list" where
  "butterfly_at df_sorted price_type i =
     (let K_prev = strike (loc df_sorted (i - 1)); K = strike (loc df_sorted i);
          K_next = strike (loc df_sorted (i + 1))
      in if \<bar>(K - K_prev) - (K_next - K)\<bar> / K > 1 / 100 then []
         else if price_type = ''call''
         then (let cost = bid (loc df_sorted (i - 1)) - 2 * ask (loc df_sorted i)
                          + bid (loc df_sorted (i + 1))
               in if cost > eps then [index df_sorted ! i] else [])
         else (let cost = bid (loc df_sorted (i - 1)) - 2 * ask (loc df_sorted i)
                          + bid (loc df_sorted (i + 1))
               in if cost > eps then [index df_sorted ! i] else []))"

definition check_butterfly_no_arb :: "dataframe \<Rightarrow> string \<Rightarrow> nat list" where
  "check_butterfly_no_arb df price_type =
     (let df_sorted = reset_index (sort_values df);
          n = length df_sorted
      in concat (map (butterfly_at df_sorted price_type) [1..<n - 1]))"

text \<open>One pass of the loop over \<^verbatim>\<open>df.iterrows()\<close>: the row with its own label.\<close>

definition bounds_at :: "cleaner \<Rightarrow> string \<Rightarrow> nat \<times> quote \<Rightarrow> nat list" where
  "bounds_at c price_type irow =
     (let idx = fst irow; row = snd irow; K = strike row
      in if price_type = ''call''
         then (let lower_bound = max (Sb c * df_q c - K * df_r c) 0;
                   upper_bound = Sa c
               in if bid row < lower_bound - eps \<or> ask row > upper_bound + eps
                  then [idx] else [])
         else (let lower_bound = max (K * df_r c - Sa c * df_q c) 0;
                   upper_bound = K * df_r c
               in if bid row < lower_bound - eps \<or> ask row > upper_bound + eps
                  then [idx] else []))"

definition check_bounds :: "cleaner \<Rightarrow> dataframe \<Rightarrow> string \<Rightarrow> nat list" where
  "check_bounds c df price_type = concat (map (bounds_at c price_type) df)"

section \<open>The iterative cleaner\<close>

text \<open>
  The source returns the table only. The model also returns which exit of the loop was
  taken: \<open>CLEAN\<close> for the \<^verbatim>\<open>break\<close> on an empty violation set, \<open>ANCHOR_LOST\<close> for the
  \<^verbatim>\<open>break\<close> after the warning, \<open>ITER_EXHAUSTED\<close> when \<^verbatim>\<open>range(max_iter)\<close> runs out.
\<close>

datatype terminal = CLEAN | ANCHOR_LOST | ITER_EXHAUSTED

text \<open>\<^verbatim>\<open>df.index[df['strike'] == atm_strike].tolist()[0]\<close>\<close>

definition atm_index_of :: "dataframe \<Rightarrow> real \<Rightarrow> error + nat" where
  "atm_index_of df atm_strike =
     (case filter (\<lambda>row. strike (snd row) = atm_strike) df of
        [] \<Rightarrow> Inl IndexError
      | row # _ \<Rightarrow> Inr (fst row))"

text \<open>The violation set of one iteration: the three lists, as a set, less the anchor's label.\<close>

definition all_violations :: "cleaner \<Rightarrow> dataframe \<Rightarrow> string \<Rightarrow> nat \<Rightarrow> nat list" where
  "all_violations c df_clean option_type atm_index =
     (let v_vertical = check_vertical_no_arb df_clean option_type;
          v_butterfly = check_butterfly_no_arb df_clean option_type;
          v_bounds = check_bounds c df_clean option_type
      in removeAll atm_index (remdups (v_vertical @ v_butterfly @ v_bounds)))"

text \<open>The body of the loop: what one iteration does to \<^verbatim>\<open>df_clean\<close> and \<^verbatim>\<open>atm_index\<close>.\<close>

datatype outcome = Break terminal dataframe | Continue dataframe nat | Raise error

definition clean_iteration :: "cleaner \<Rightarrow> string \<Rightarrow> real \<Rightarrow> dataframe \<Rightarrow> nat \<Rightarrow> outcome" where
  "clean_iteration c option_type atm_strike df_clean atm_index =
     (let vs = all_violations c df_clean option_type atm_index
      in if vs = [] then Break CLEAN df_clean
         else case drop_rows df_clean vs of
                Inl e \<Rightarrow> Raise e
              | Inr dropped \<Rightarrow>
                  (let df_new = reset_index dropped
                   in if atm_strike \<in> set (strikes df_new)
                      then (case atm_index_of df_new atm_strike of
                              Inl e \<Rightarrow> Raise e
                            | Inr a \<Rightarrow> Continue df_new a)
                      else Break ANCHOR_LOST df_new))"

fun clean_loop ::
  "cleaner \<Rightarrow> string \<Rightarrow> real \<Rightarrow> nat \<Rightarrow> dataframe \<Rightarrow> nat \<Rightarrow> error + terminal \<times> dataframe" where
  "clean_loop c option_type atm_strike 0 df_clean atm_index = Inr (ITER_EXHAUSTED, df_clean)"
| "clean_loop c option_type atm_strike (Suc remaining) df_clean atm_index =
     (case clean_iteration c option_type atm_strike df_clean atm_index of
        Break t df_out \<Rightarrow> Inr (t, df_out)
      | Raise e \<Rightarrow> Inl e
      | Continue df_new a \<Rightarrow> clean_loop c option_type atm_strike remaining df_new a)"

definition clean_run ::
  "cleaner \<Rightarrow> dataframe \<Rightarrow> string \<Rightarrow> real \<Rightarrow> nat \<Rightarrow> error + terminal \<times> dataframe" where
  "clean_run c df option_type atm_strike max_iter =
     (case atm_index_of df atm_strike of
        Inl e \<Rightarrow> Inl e
      | Inr atm_index \<Rightarrow> clean_loop c option_type atm_strike max_iter df atm_index)"

definition clean_single_dataframe ::
  "cleaner \<Rightarrow> dataframe \<Rightarrow> string \<Rightarrow> real \<Rightarrow> nat \<Rightarrow> error + dataframe" where
  "clean_single_dataframe c df option_type atm_strike max_iter =
     (case clean_run c df option_type atm_strike max_iter of
        Inl e \<Rightarrow> Inl e
      | Inr res \<Rightarrow> Inr (snd res))"

section \<open>The batch processor\<close>

record report =
  removed_counts :: "int list"
  arbitrage_types_found :: "string list"

text \<open>The loop over \<^verbatim>\<open>zip(list_of_dfs, option_types)\<close>, with its two accumulators.\<close>

fun clean_pairs ::
  "cleaner \<Rightarrow> (dataframe \<times> string) list \<Rightarrow> dataframe list \<Rightarrow> report
     \<Rightarrow> error + dataframe list \<times> report" where
  "clean_pairs cl [] cleaned_dfs rep = Inr (cleaned_dfs, rep)"
| "clean_pairs cl ((df, o_type) # rest) cleaned_dfs rep =
     (case identify_atm_strike cl df of
        Inl e \<Rightarrow> Inl e
      | Inr atm_strike \<Rightarrow>
          (case clean_single_dataframe cl df o_type atm_strike 20 of
             Inl e \<Rightarrow> Inl e
           | Inr df_cleaned \<Rightarrow>
               (let removed = int (length df) - int (length df_cleaned)
                in clean_pairs cl rest (cleaned_dfs @ [df_cleaned])
                     (rep\<lparr>removed_counts := removed_counts rep @ [removed]\<rparr>))))"

definition clean_all_dataframes ::
  "dataframe list \<Rightarrow> string list \<Rightarrow> real \<Rightarrow> real \<Rightarrow> real \<Rightarrow> real
     \<Rightarrow> error + dataframe list \<times> report" where
  "clean_all_dataframes list_of_dfs option_types spot_bid spot_ask r T =
     clean_pairs (init spot_bid spot_ask r T 0) (zip list_of_dfs option_types) []
       \<lparr>removed_counts = [], arbitrage_types_found = []\<rparr>"

section \<open>Notions used in the statements\<close>

text \<open>\<open>first_min xs m\<close>: position \<open>m\<close> holds the least value of \<open>xs\<close>, and no earlier
  position does.\<close>

definition first_min :: "real list \<Rightarrow> nat \<Rightarrow> bool" where
  "first_min xs m \<longleftrightarrow>
     m < length xs \<and> (\<forall>j < length xs. xs ! m \<le> xs ! j) \<and> (\<forall>j < m. xs ! m < xs ! j)"

text \<open>A quote, and the pricing context of the examples: spot 100 on both sides, no interest,
  no dividends, so that both discount factors are 1.\<close>

definition Q :: "real \<Rightarrow> real \<Rightarrow> real \<Rightarrow> quote" where
  "Q k b a = \<lparr>strike = k, bid = b, ask = a\<rparr>"

definition flat100 :: cleaner where
  "flat100 = init 100 100 0 1 0"

text \<open>\<open>anchor_kept atm_strike df out\<close>: the first quote of \<open>df\<close> at the strike \<open>atm_strike\<close>
  is, with the same strike, bid and ask, the first quote of \<open>out\<close> at that strike.\<close>

definition anchor_kept :: "real \<Rightarrow> dataframe \<Rightarrow> dataframe \<Rightarrow> bool" where
  "anchor_kept atm_strike df out \<longleftrightarrow>
     (\<exists>q qs qs'. filter (\<lambda>q. strike q = atm_strike) (map snd df) = q # qs
                \<and> filter (\<lambda>q. strike q = atm_strike) (map snd out) = q # qs')"

text \<open>\<open>before_anchor atm_strike df\<close>: the quotes of \<open>df\<close> that come, in row order, before the
  first quote at the strike \<open>atm_strike\<close>.\<close>

definition before_anchor :: "real \<Rightarrow> dataframe \<Rightarrow> quote list" where
  "before_anchor atm_strike df = takeWhile (\<lambda>q. strike q \<noteq> atm_strike) (map snd df)"

text \<open>\<open>ascending df\<close>: the rows are in strictly ascending order of strike and carry the
  default index \<open>0, 1, ...\<close>, so that a row's label is its position in the sorted view.\<close>

definition ascending :: "dataframe \<Rightarrow> bool" where
  "ascending df \<longleftrightarrow> index df = [0..<length df] \<and> sorted_wrt (<) (strikes df)"

text \<open>Tables of call quotes for the examples, all with the default index. \<open>unsorted3\<close> has
  its rows in descending order of strike; \<open>cascade\<close> has the anchor at strike 100 and 21
  quotes above it, at the strikes 101 to 121.\<close>

definition unsorted3 :: dataframe where
  "unsorted3 = [(0, Q 110 8 9), (1, Q 100 5 6), (2, Q 90 12 13)]"

definition sorted3 :: dataframe where
  "sorted3 = [(0, Q 100 5 6), (1, Q 110 3 7), (2, Q 120 8 9)]"

definition pair2 :: dataframe where
  "pair2 = [(0, Q 90 10 11), (1, Q 100 20 21)]"

definition cascade :: dataframe where
  "cascade = (0, Q 100 0 1) # map (\<lambda>j. (j, Q (100 + real j) 2 50)) [1..<22]"

text \<open>\<open>fly_labelled\<close> is in ascending order of strike with the index \<open>1, 2, 3\<close>; in \<open>twin2\<close>
  the strike 100 occurs twice.\<close>

definition fly_labelled :: dataframe where
  "fly_labelled = [(1, Q 95 10 11), (2, Q 100 1 2), (3, Q 105 3 4)]"


section \<open>Facts about the data frame operations\<close>

lemma length_reset_index [simp]: "length (reset_index df) = length df"
  by (simp add: reset_index_def)

lemma index_reset_index [simp]: "index (reset_index df) = [0..<length df]"
  by (simp add: reset_index_def index_def)

lemma map_snd_reset_index [simp]: "map snd (reset_index df) = map snd df"
  by (simp add: reset_index_def)

lemma nth_reset_index [simp]: "i < length df \<Longrightarrow> reset_index df ! i = (i, snd (df ! i))"
  by (simp add: reset_index_def)

lemma loc_reset_index [simp]: "i < length df \<Longrightarrow> loc (reset_index df) i = snd (df ! i)"
  by (simp add: loc_def)

lemma strikes_map_snd: "strikes df = map strike (map snd df)"
  by (simp add: strikes_def)

lemma strikes_reset_index [simp]: "strikes (reset_index df) = strikes df"
  by (simp only: strikes_map_snd map_snd_reset_index)

lemma length_sort_values [simp]: "length (sort_values df) = length df"
  by (simp add: sort_values_def)

lemma sort_values_sorted: "sorted (strikes df) \<Longrightarrow> sort_values df = df"
  unfolding sort_values_def strikes_def by (rule sort_key_id_if_sorted)

lemma reset_index_default: "index df = [0..<length df] \<Longrightarrow> reset_index df = df"
  unfolding reset_index_def index_def by (metis zip_map_fst_snd)

lemma flat100_fields [simp]:
  "Sb flat100 = 100" "Sa flat100 = 100" "df_r flat100 = 1" "df_q flat100 = 1"
  by (simp_all add: flat100_def init_def)

section \<open>A one-row table\<close>

text \<open>A single call quote at the spot is its own anchor, and cleaning returns it as it is.\<close>

lemma single_row_clean:
  "clean_single_dataframe flat100 [(0, Q 100 5 6)] ''call'' 100 20 = Inr [(0, Q 100 5 6)]"
  by (simp add: clean_single_dataframe_def clean_run_def atm_index_of_def
        clean_iteration_def all_violations_def check_vertical_no_arb_def
        check_butterfly_no_arb_def check_bounds_def bounds_at_def reset_index_def
        sort_values_def index_def Q_def eps_def eval_nat_numeral)

lemma single_row_atm: "identify_atm_strike flat100 [(0, Q 100 5 6)] = Inr 100"
  by (simp add: identify_atm_strike_def argmin_def strikes_def Q_def)

section \<open>Anchor resolution at entry\<close>

lemma atm_index_of_absent:
  "atm_strike \<notin> set (strikes df) \<Longrightarrow> atm_index_of df atm_strike = Inl IndexError"
proof -
  assume "atm_strike \<notin> set (strikes df)"
  then have "filter (\<lambda>row. strike (snd row) = atm_strike) df = []"
    by (auto simp: strikes_def filter_empty_conv)
  then show ?thesis by (simp add: atm_index_of_def)
qed

text \<open>
  Claim C10. When \<open>atm_strike\<close> is not a value of the strike column, the lookup of the
  anchor's label at the head of \<open>clean_single_dataframe\<close> raises \<open>IndexError\<close>, whatever
  the pricing context, the side and the iteration cap are: no checker has run and no row
  has been dropped. Hence the function returns a table only when \<open>atm_strike\<close> occurs in
  the input.
\<close>

theorem clean_single_dataframe_needs_anchor:
  "(atm_strike \<notin> set (strikes df) \<longrightarrow>
      clean_single_dataframe c df option_type atm_strike max_iter = Inl IndexError)
   \<and> (clean_single_dataframe c df option_type atm_strike max_iter = Inr out \<longrightarrow>
      atm_strike \<in> set (strikes df))"
proof -
  have a: "clean_single_dataframe c df option_type atm_strike max_iter = Inl IndexError"
    if "atm_strike \<notin> set (strikes df)"
    using atm_index_of_absent [OF that] by (simp add: clean_single_dataframe_def clean_run_def)
  show ?thesis
  proof (intro conjI impI)
    assume "atm_strike \<notin> set (strikes df)"
    then show "clean_single_dataframe c df option_type atm_strike max_iter = Inl IndexError"
      by (rule a)
  next
    assume r: "clean_single_dataframe c df option_type atm_strike max_iter = Inr out"
    show "atm_strike \<in> set (strikes df)"
    proof (rule ccontr)
      assume "atm_strike \<notin> set (strikes df)"
      from a [OF this] r show False by simp
    qed
  qed
qed

theorem clean_single_dataframe_needs_anchor_witness:
  "(95::real) \<notin> set (strikes [(0, Q 100 5 6)])
   \<and> clean_single_dataframe flat100 [(0, Q 100 5 6)] ''call'' 95 20 = Inl IndexError
   \<and> clean_single_dataframe flat100 [(0, Q 100 5 6)] ''call'' 100 20 = Inr [(0, Q 100 5 6)]
   \<and> (100::real) \<in> set (strikes [(0, Q 100 5 6)])"
proof -
  have h: "(95::real) \<notin> set (strikes [(0, Q 100 5 6)])"
    by (simp add: strikes_def Q_def)
  note r = single_row_clean
  from clean_single_dataframe_needs_anchor
         [of 95 "[(0, Q 100 5 6)]" flat100 "''call''" 20]
       clean_single_dataframe_needs_anchor
         [of 100 "[(0, Q 100 5 6)]" flat100 "''call''" 20 "[(0, Q 100 5 6)]"]
       h r
  show ?thesis by blast
qed

section \<open>ATM selection\<close>

lemma first_min_snoc_keep:
  assumes "first_min pre b" "\<not> y < pre ! b"
  shows "first_min (pre @ [y]) b"
  unfolding first_min_def
proof (intro conjI allI impI)
  from assms(1) have b: "b < length pre" by (simp add: first_min_def)
  then show "b < length (pre @ [y])" by simp
  fix j
  { assume "j < length (pre @ [y])"
    then consider "j < length pre" | "j = length pre" by fastforce
    then show "(pre @ [y]) ! b \<le> (pre @ [y]) ! j"
    proof cases
      case 1 with assms(1) b show ?thesis by (simp add: first_min_def nth_append)
    next
      case 2 with assms(2) b show ?thesis by (simp add: nth_append)
    qed }
  { assume "j < b"
    with assms(1) b show "(pre @ [y]) ! b < (pre @ [y]) ! j"
      by (simp add: first_min_def nth_append) }
qed

lemma first_min_snoc_new:
  assumes "first_min pre b" "y < pre ! b"
  shows "first_min (pre @ [y]) (length pre)"
  unfolding first_min_def
proof (intro conjI allI impI)
  have lt: "y < pre ! j" if "j < length pre" for j
  proof -
    have "pre ! b \<le> pre ! j" using assms(1) that by (simp add: first_min_def)
    with assms(2) show ?thesis by simp
  qed
  show "length pre < length (pre @ [y])" by simp
  fix j
  { assume "j < length (pre @ [y])"
    then consider "j < length pre" | "j = length pre" by fastforce
    then show "(pre @ [y]) ! length pre \<le> (pre @ [y]) ! j"
    proof cases
      case 1 with lt [OF 1] show ?thesis by (simp add: nth_append)
    next
      case 2 then show ?thesis by simp
    qed }
  { assume "j < length pre"
    with lt show "(pre @ [y]) ! length pre < (pre @ [y]) ! j"
      by (simp add: nth_append) }
qed

lemma argmin_scan_first_min:
  "first_min pre b \<Longrightarrow> first_min (pre @ ys) (argmin_scan ys (length pre) b (pre ! b))"
proof (induction ys arbitrary: pre b)
  case Nil
  then show ?case by simp
next
  case (Cons y ys)
  show ?case
  proof (cases "y < pre ! b")
    case True
    from first_min_snoc_new [OF Cons.prems True]
    have "first_min ((pre @ [y]) @ ys)
            (argmin_scan ys (length (pre @ [y])) (length pre) ((pre @ [y]) ! length pre))"
      by (rule Cons.IH)
    with True show ?thesis by simp
  next
    case False
    from Cons.prems have b: "b < length pre" by (simp add: first_min_def)
    from first_min_snoc_keep [OF Cons.prems False]
    have "first_min ((pre @ [y]) @ ys)
            (argmin_scan ys (length (pre @ [y])) b ((pre @ [y]) ! b))"
      by (rule Cons.IH)
    with False b show ?thesis by (simp add: nth_append)
  qed
qed

lemma argmin_first_min:
  assumes "xs \<noteq> []"
  shows "\<exists>m. argmin xs = Inr m \<and> first_min xs m"
proof -
  from assms obtain x ys where xs: "xs = x # ys" by (cases xs) auto
  have "first_min [x] 0" by (simp add: first_min_def)
  from argmin_scan_first_min [OF this, of ys]
  show ?thesis by (simp add: xs argmin_def)
qed

text \<open>
  Claim C8, as the code has it. On the empty table \<open>identify_atm_strike\<close> raises
  (\<open>ValueError\<close>, from \<open>argmin\<close>); on every other table it returns a strike of the table
  that minimises the distance to the spot midpoint, and among equidistant strikes the one
  that comes first in the row order of the table as it was passed in. The table is not
  sorted before the search, so the first in row order is the lowest such strike only when
  the rows are in ascending order of strike.
\<close>

theorem identify_atm_strike_first_nearest:
  "identify_atm_strike c [] = Inl ValueError
   \<and> (df \<noteq> [] \<longrightarrow>
        (\<exists>i < length df. identify_atm_strike c df = Inr (strikes df ! i)
           \<and> (\<forall>j < length df. \<bar>strikes df ! i - (Sb c + Sa c) / 2\<bar>
                                 \<le> \<bar>strikes df ! j - (Sb c + Sa c) / 2\<bar>)
           \<and> (\<forall>j < i. \<bar>strikes df ! i - (Sb c + Sa c) / 2\<bar>
                         < \<bar>strikes df ! j - (Sb c + Sa c) / 2\<bar>)))"
proof (intro conjI impI)
  show "identify_atm_strike c [] = Inl ValueError"
    by (simp add: identify_atm_strike_def argmin_def strikes_def)
next
  assume ne: "df \<noteq> []"
  define mid where "mid = (Sb c + Sa c) / 2"
  define ds where "ds = map (\<lambda>k. \<bar>k - mid\<bar>) (strikes df)"
  have "ds \<noteq> []" using ne by (simp add: strikes_def ds_def)
  from argmin_first_min [OF this] obtain m where
    m: "argmin ds = Inr m" "first_min ds m" by blast
  have len: "length ds = length df" by (simp add: strikes_def ds_def)
  have nth: "ds ! j = \<bar>strikes df ! j - mid\<bar>" if "j < length df" for j
    using that by (simp add: strikes_def ds_def)
  have ml: "m < length df" using m(2) len by (simp add: first_min_def)
  have "identify_atm_strike c df = Inr (strikes df ! m)"
    using m(1) by (simp add: identify_atm_strike_def Let_def ds_def mid_def)
  moreover have "\<forall>j < length df. \<bar>strikes df ! m - mid\<bar> \<le> \<bar>strikes df ! j - mid\<bar>"
  proof (intro allI impI)
    fix j assume j: "j < length df"
    then have "ds ! m \<le> ds ! j" using m(2) len by (simp add: first_min_def)
    then show "\<bar>strikes df ! m - mid\<bar> \<le> \<bar>strikes df ! j - mid\<bar>"
      using nth [OF j] nth [OF ml] by simp
  qed
  moreover have "\<forall>j < m. \<bar>strikes df ! m - mid\<bar> < \<bar>strikes df ! j - mid\<bar>"
  proof (intro allI impI)
    fix j assume j: "j < m"
    then have jl: "j < length df" using ml by simp
    have "ds ! m < ds ! j" using m(2) j by (simp add: first_min_def)
    then show "\<bar>strikes df ! m - mid\<bar> < \<bar>strikes df ! j - mid\<bar>"
      using nth [OF jl] nth [OF ml] by simp
  qed
  ultimately show "\<exists>i < length df. identify_atm_strike c df = Inr (strikes df ! i)
           \<and> (\<forall>j < length df. \<bar>strikes df ! i - (Sb c + Sa c) / 2\<bar>
                                 \<le> \<bar>strikes df ! j - (Sb c + Sa c) / 2\<bar>)
           \<and> (\<forall>j < i. \<bar>strikes df ! i - (Sb c + Sa c) / 2\<bar>
                         < \<bar>strikes df ! j - (Sb c + Sa c) / 2\<bar>)"
    using ml unfolding mid_def by blast
qed

text \<open>The theorem at a table of two rows, 110 before 90, with the spot midpoint at 100:
  both strikes are at distance 10, and the first row wins.\<close>

lemma strikes_110_90: "strikes [(0, Q 110 1 2), (1, Q 90 11 12)] = [110, 90]"
  by (simp add: strikes_def Q_def)

lemma argmin_10_10: "argmin [10, 10::real] = Inr 0"
  by (simp add: argmin_def)

lemma identify_110_90:
  "identify_atm_strike flat100 [(0, Q 110 1 2), (1, Q 90 11 12)] = Inr 110"
  unfolding identify_atm_strike_def strikes_110_90 by (simp add: argmin_10_10)

theorem identify_atm_strike_first_nearest_witness:
  "[(0::nat, Q 110 1 2), (1, Q 90 11 12)] \<noteq> []
   \<and> (\<exists>i < length [(0::nat, Q 110 1 2), (1, Q 90 11 12)].
        identify_atm_strike flat100 [(0, Q 110 1 2), (1, Q 90 11 12)]
          = Inr (strikes [(0, Q 110 1 2), (1, Q 90 11 12)] ! i))
   \<and> identify_atm_strike flat100 [(0, Q 110 1 2), (1, Q 90 11 12)] = Inr 110"
proof -
  have ne: "[(0::nat, Q 110 1 2), (1, Q 90 11 12)] \<noteq> []" by simp
  from identify_atm_strike_first_nearest [of flat100 "[(0, Q 110 1 2), (1, Q 90 11 12)]"]
  have "[(0::nat, Q 110 1 2), (1, Q 90 11 12)] \<noteq> [] \<longrightarrow>
        (\<exists>i < length [(0::nat, Q 110 1 2), (1, Q 90 11 12)].
           identify_atm_strike flat100 [(0, Q 110 1 2), (1, Q 90 11 12)]
             = Inr (strikes [(0, Q 110 1 2), (1, Q 90 11 12)] ! i)
           \<and> (\<forall>j < length [(0::nat, Q 110 1 2), (1, Q 90 11 12)].
                 \<bar>strikes [(0, Q 110 1 2), (1, Q 90 11 12)] ! i - (Sb flat100 + Sa flat100) / 2\<bar>
                 \<le> \<bar>strikes [(0, Q 110 1 2), (1, Q 90 11 12)] ! j - (Sb flat100 + Sa flat100) / 2\<bar>)
           \<and> (\<forall>j < i.
                 \<bar>strikes [(0, Q 110 1 2), (1, Q 90 11 12)] ! i - (Sb flat100 + Sa flat100) / 2\<bar>
                 < \<bar>strikes [(0, Q 110 1 2), (1, Q 90 11 12)] ! j - (Sb flat100 + Sa flat100) / 2\<bar>))"
    by (rule conjunct2)
  from mp [OF this ne] obtain i where
    "i < length [(0::nat, Q 110 1 2), (1, Q 90 11 12)]"
    "identify_atm_strike flat100 [(0, Q 110 1 2), (1, Q 90 11 12)]
       = Inr (strikes [(0, Q 110 1 2), (1, Q 90 11 12)] ! i)"
    by (elim exE conjE)
  then have ex: "\<exists>i < length [(0::nat, Q 110 1 2), (1, Q 90 11 12)].
        identify_atm_strike flat100 [(0, Q 110 1 2), (1, Q 90 11 12)]
          = Inr (strikes [(0, Q 110 1 2), (1, Q 90 11 12)] ! i)"
    by (intro exI conjI)
  from ne ex identify_110_90 show ?thesis by (intro conjI)
qed

text \<open>The claim as written asks for the first tied strike in ascending order of strike.
  In the table above that is 90; the function returns 110.\<close>

theorem identify_atm_strike_tie_counterexample:
  "identify_atm_strike flat100 [(0, Q 110 1 2), (1, Q 90 11 12)] = Inr 110
   \<and> (90::real) \<in> set (strikes [(0, Q 110 1 2), (1, Q 90 11 12)])
   \<and> \<bar>(90::real) - (Sb flat100 + Sa flat100) / 2\<bar> = \<bar>110 - (Sb flat100 + Sa flat100) / 2\<bar>
   \<and> (90::real) < 110"
proof (intro conjI)
  show "identify_atm_strike flat100 [(0, Q 110 1 2), (1, Q 90 11 12)] = Inr 110"
    by (rule identify_110_90)
  show "(90::real) \<in> set (strikes [(0, Q 110 1 2), (1, Q 90 11 12)])"
    unfolding strikes_110_90 by simp
  show "\<bar>(90::real) - (Sb flat100 + Sa flat100) / 2\<bar> = \<bar>110 - (Sb flat100 + Sa flat100) / 2\<bar>"
    by simp
  show "(90::real) < 110" by simp
qed

section \<open>The bounds checker\<close>

lemma bounds_at_cases: "bounds_at c pt irow = [fst irow] \<or> bounds_at c pt irow = []"
  by (simp add: bounds_at_def Let_def)

lemma set_check_bounds:
  "set (check_bounds c df pt) = {fst irow | irow. irow \<in> set df \<and> bounds_at c pt irow \<noteq> []}"
proof -
  have "set (bounds_at c pt irow) = (if bounds_at c pt irow \<noteq> [] then {fst irow} else {})" for irow
    using bounds_at_cases [of c pt irow] by auto
  then show ?thesis by (auto simp: check_bounds_def split: if_splits)
qed

lemma distinct_index_unique:
  assumes "distinct (index df)" "(i, row) \<in> set df" "(i, row') \<in> set df"
  shows "row' = row"
  using assms unfolding index_def by (metis eq_key_imp_eq_value)

text \<open>
  Claim C7. In a table whose index labels are distinct, the label of a row is in the result
  of \<open>check_bounds\<close> exactly when the row's own bid or ask breaks the model-free bounds:
  for calls \<open>bid < max (Sb * df_q - K * df_r) 0 - eps\<close> or \<open>ask > Sa + eps\<close>, for any
  other side \<open>bid < max (K * df_r - Sa * df_q) 0 - eps\<close> or \<open>ask > K * df_r + eps\<close>, with
  \<open>eps = 1e-10\<close>. The condition reads the row and the pricing context only, no other row.
\<close>

theorem check_bounds_iff:
  assumes "distinct (index df)" and "(i, row) \<in> set df"
  shows "i \<in> set (check_bounds c df price_type) \<longleftrightarrow>
          (if price_type = ''call''
           then bid row < max (Sb c * df_q c - strike row * df_r c) 0 - 1 / 10 ^ 10
                \<or> ask row > Sa c + 1 / 10 ^ 10
           else bid row < max (strike row * df_r c - Sa c * df_q c) 0 - 1 / 10 ^ 10
                \<or> ask row > strike row * df_r c + 1 / 10 ^ 10)"
proof -
  have "i \<in> set (check_bounds c df price_type) \<longleftrightarrow> bounds_at c price_type (i, row) \<noteq> []"
  proof
    assume "i \<in> set (check_bounds c df price_type)"
    then obtain irow where ir: "irow \<in> set df" "fst irow = i" "bounds_at c price_type irow \<noteq> []"
      unfolding set_check_bounds by auto
    then have "(i, snd irow) \<in> set df" by (metis prod.collapse)
    from distinct_index_unique [OF assms(1) assms(2) this] ir
    show "bounds_at c price_type (i, row) \<noteq> []" by (metis prod.collapse)
  next
    assume "bounds_at c price_type (i, row) \<noteq> []"
    with assms(2) show "i \<in> set (check_bounds c df price_type)"
      unfolding set_check_bounds by force
  qed
  also have "\<dots> \<longleftrightarrow> (if price_type = ''call''
           then bid row < max (Sb c * df_q c - strike row * df_r c) 0 - 1 / 10 ^ 10
                \<or> ask row > Sa c + 1 / 10 ^ 10
           else bid row < max (strike row * df_r c - Sa c * df_q c) 0 - 1 / 10 ^ 10
                \<or> ask row > strike row * df_r c + 1 / 10 ^ 10)"
    by (simp add: bounds_at_def Let_def eps_def)
  finally show ?thesis .
qed

lemma index_two: "index [(0, Q 100 5 6), (1, Q 90 2 3)] = [0, 1]"
  by (simp add: index_def)

theorem check_bounds_iff_witness:
  "distinct (index [(0, Q 100 5 6), (1, Q 90 2 3)])
   \<and> (1, Q 90 2 3) \<in> set [(0::nat, Q 100 5 6), (1, Q 90 2 3)]
   \<and> 1 \<in> set (check_bounds flat100 [(0, Q 100 5 6), (1, Q 90 2 3)] ''call'')
   \<and> 0 \<notin> set (check_bounds flat100 [(0, Q 100 5 6), (1, Q 90 2 3)] ''call'')"
proof -
  have d: "distinct (index [(0, Q 100 5 6), (1, Q 90 2 3)])"
    unfolding index_two by simp
  have m1: "(1, Q 90 2 3) \<in> set [(0::nat, Q 100 5 6), (1, Q 90 2 3)]" by simp
  have m0: "(0, Q 100 5 6) \<in> set [(0::nat, Q 100 5 6), (1, Q 90 2 3)]" by simp
  have "1 \<in> set (check_bounds flat100 [(0, Q 100 5 6), (1, Q 90 2 3)] ''call'')"
    unfolding check_bounds_iff [OF d m1] by (simp add: Q_def)
  moreover have "0 \<notin> set (check_bounds flat100 [(0, Q 100 5 6), (1, Q 90 2 3)] ''call'')"
    unfolding check_bounds_iff [OF d m0] by (simp add: Q_def)
  ultimately show ?thesis using d m1 by (intro conjI)
qed

section \<open>The butterfly checker\<close>

lemma butterfly_at_reset_index:
  assumes "1 \<le> j" "j + 1 < length df"
  shows "butterfly_at (reset_index df) pt j =
           (if \<bar>(strike (loc df j) - strike (loc df (j - 1))) - (strike (loc df (j + 1)) - strike (loc df j))\<bar>
                 / strike (loc df j) \<le> 1 / 100
               \<and> bid (loc df (j - 1)) - 2 * ask (loc df j) + bid (loc df (j + 1)) > 1 / 10 ^ 10
            then [j] else [])"
proof -
  have l: "loc (reset_index df) (j - 1) = loc df (j - 1)" "loc (reset_index df) j = loc df j"
    "loc (reset_index df) (j + 1) = loc df (j + 1)"
    using assms by (simp_all add: loc_def)
  have i: "index (reset_index df) ! j = j" using assms by simp
  show ?thesis unfolding butterfly_at_def l i by (simp add: Let_def eps_def not_less)
qed

text \<open>
  What the checker returns, by position. For a table in ascending order of strike (with
  positive strikes), position \<open>i\<close> of the table is in the result of
  \<open>check_butterfly_no_arb\<close> exactly when it is the middle of an interior triplet whose
  spacing asymmetry \<open>\<bar>(K\<^sub>i - K\<^sub>i\<^sub>-\<^sub>1) - (K\<^sub>i\<^sub>+\<^sub>1 - K\<^sub>i)\<bar> / K\<^sub>i\<close> is at most 0.01 and whose
  cost \<open>bid\<^sub>i\<^sub>-\<^sub>1 - 2 * ask\<^sub>i + bid\<^sub>i\<^sub>+\<^sub>1\<close> exceeds \<open>1e-10\<close>. The side does not occur in
  the condition: calls and puts are checked by the same formula.
\<close>

lemma check_butterfly_positions:
  assumes "sorted (strikes df)" and "\<forall>k \<in> set (strikes df). 0 < k"
  shows "i \<in> set (check_butterfly_no_arb df price_type) \<longleftrightarrow>
           1 \<le> i \<and> i + 1 < length df
           \<and> \<bar>(strike (loc df i) - strike (loc df (i - 1))) - (strike (loc df (i + 1)) - strike (loc df i))\<bar>
                 / strike (loc df i) \<le> 1 / 100
           \<and> bid (loc df (i - 1)) - 2 * ask (loc df i) + bid (loc df (i + 1)) > 1 / 10 ^ 10"
proof -
  have s: "sort_values df = df" using assms(1) by (rule sort_values_sorted)
  have "i \<in> set (check_butterfly_no_arb df price_type) \<longleftrightarrow>
          (\<exists>j \<in> {1..<length df - 1}. i \<in> set (butterfly_at (reset_index df) price_type j))"
    by (simp add: check_butterfly_no_arb_def s Let_def)
  also have "\<dots> \<longleftrightarrow> (\<exists>j \<in> {1..<length df - 1}. i = j
           \<and> \<bar>(strike (loc df j) - strike (loc df (j - 1))) - (strike (loc df (j + 1)) - strike (loc df j))\<bar>
                 / strike (loc df j) \<le> 1 / 100
           \<and> bid (loc df (j - 1)) - 2 * ask (loc df j) + bid (loc df (j + 1)) > 1 / 10 ^ 10)"
  proof (rule bex_cong [OF refl])
    fix j assume "j \<in> {1..<length df - 1}"
    then have "1 \<le> j" "j + 1 < length df" by auto
    from butterfly_at_reset_index [OF this, of price_type]
    show "i \<in> set (butterfly_at (reset_index df) price_type j) \<longleftrightarrow> (i = j
           \<and> \<bar>(strike (loc df j) - strike (loc df (j - 1))) - (strike (loc df (j + 1)) - strike (loc df j))\<bar>
                 / strike (loc df j) \<le> 1 / 100
           \<and> bid (loc df (j - 1)) - 2 * ask (loc df j) + bid (loc df (j + 1)) > 1 / 10 ^ 10)"
      by simp
  qed
  also have "\<dots> \<longleftrightarrow> (1 \<le> i \<and> i + 1 < length df
           \<and> \<bar>(strike (loc df i) - strike (loc df (i - 1))) - (strike (loc df (i + 1)) - strike (loc df i))\<bar>
                 / strike (loc df i) \<le> 1 / 100
           \<and> bid (loc df (i - 1)) - 2 * ask (loc df i) + bid (loc df (i + 1)) > 1 / 10 ^ 10)"
    by auto
  finally show ?thesis .
qed

lemma strikes_fly: "strikes [(0, Q 95 10 11), (1, Q 100 1 2), (2, Q 105 3 4)] = [95, 100, 105]"
  by (simp add: strikes_def Q_def)

lemma check_butterfly_positions_example:
  "sorted (strikes [(0, Q 95 10 11), (1, Q 100 1 2), (2, Q 105 3 4)])
   \<and> 1 \<in> set (check_butterfly_no_arb [(0, Q 95 10 11), (1, Q 100 1 2), (2, Q 105 3 4)] ''call'')
   \<and> 1 \<in> set (check_butterfly_no_arb [(0, Q 95 10 11), (1, Q 100 1 2), (2, Q 105 3 4)] ''put'')
   \<and> 2 \<notin> set (check_butterfly_no_arb [(0, Q 95 10 11), (1, Q 100 1 2), (2, Q 105 3 4)] ''call'')"
proof -
  have s: "sorted (strikes [(0, Q 95 10 11), (1, Q 100 1 2), (2, Q 105 3 4)])"
    unfolding strikes_fly by simp
  have p: "\<forall>k \<in> set (strikes [(0, Q 95 10 11), (1, Q 100 1 2), (2, Q 105 3 4)]). 0 < k"
    unfolding strikes_fly by simp
  have "1 \<in> set (check_butterfly_no_arb [(0, Q 95 10 11), (1, Q 100 1 2), (2, Q 105 3 4)] ''call'')"
    unfolding check_butterfly_positions [OF s p] by (simp add: loc_def Q_def)
  moreover have "1 \<in> set (check_butterfly_no_arb [(0, Q 95 10 11), (1, Q 100 1 2), (2, Q 105 3 4)] ''put'')"
    unfolding check_butterfly_positions [OF s p] by (simp add: loc_def Q_def)
  moreover have "2 \<notin> set (check_butterfly_no_arb [(0, Q 95 10 11), (1, Q 100 1 2), (2, Q 105 3 4)] ''call'')"
    unfolding check_butterfly_positions [OF s p] by simp
  ultimately show ?thesis using s by (intro conjI)
qed

lemma fly_labelled_strikes: "strikes fly_labelled = [95, 100, 105]"
  by (simp add: strikes_def fly_labelled_def Q_def)

lemma fly_labelled_index: "index fly_labelled = [1, 2, 3]"
  by (simp add: index_def fly_labelled_def)

lemma fly_labelled_butterfly:
  "check_butterfly_no_arb fly_labelled price_type = [1]"
  by (simp add: check_butterfly_no_arb_def butterfly_at_def reset_index_def sort_values_def
      index_def loc_def fly_labelled_def Q_def eps_def eval_nat_numeral)

text \<open>
  Claim C6 asks that a quote's key is in the result exactly when the quote is the middle of
  a qualifying triplet. The result holds the position of that quote in the checker's own
  sorted, re-indexed view, not its key. On \<open>fly_labelled\<close>, in ascending order of strike
  with the index \<open>1, 2, 3\<close>, the one triplet qualifies (equal spacing, cost
  \<open>10 - 2 * 2 + 3 = 9\<close>); its middle, the quote at strike 100, has the key 2; the result is
  \<open>[1]\<close> for calls and for puts, and the key 1 is the wing at strike 95.
\<close>

theorem butterfly_result_is_position_not_key:
  "sorted (strikes fly_labelled)
   \<and> index fly_labelled = [1, 2, 3]
   \<and> fly_labelled ! 0 = (1, Q 95 10 11)
   \<and> fly_labelled ! 1 = (2, Q 100 1 2)
   \<and> fly_labelled ! 2 = (3, Q 105 3 4)
   \<and> \<bar>((100::real) - 95) - (105 - 100)\<bar> / 100 \<le> 1 / 100
   \<and> (10::real) - 2 * 2 + 3 > eps
   \<and> check_butterfly_no_arb fly_labelled ''call'' = [1]
   \<and> check_butterfly_no_arb fly_labelled ''put'' = [1]"
proof -
  have "sorted (strikes fly_labelled)" unfolding fly_labelled_strikes by simp
  moreover have "fly_labelled ! 0 = (1, Q 95 10 11)" "fly_labelled ! 1 = (2, Q 100 1 2)"
    "fly_labelled ! 2 = (3, Q 105 3 4)" by (simp_all add: fly_labelled_def)
  moreover have "\<bar>((100::real) - 95) - (105 - 100)\<bar> / 100 \<le> 1 / 100" by simp
  moreover have "(10::real) - 2 * 2 + 3 > eps" by (simp add: eps_def)
  ultimately show ?thesis
    using fly_labelled_index fly_labelled_butterfly [of "''call''"]
      fly_labelled_butterfly [of "''put''"] by simp
qed

section \<open>The batch processor: side labels and tables of different number\<close>

lemma clean_pairs_Inr:
  assumes "clean_pairs cl ps acc rep = Inr (cleaned, rep')"
  shows "\<exists>outs. cleaned = acc @ outs
           \<and> list_all2 (\<lambda>p out. \<exists>atm. identify_atm_strike cl (fst p) = Inr atm
                  \<and> clean_single_dataframe cl (fst p) (snd p) atm 20 = Inr out) ps outs
           \<and> removed_counts rep' = removed_counts rep
                @ map2 (\<lambda>p out. int (length (fst p)) - int (length out)) ps outs
           \<and> arbitrage_types_found rep' = arbitrage_types_found rep"
  using assms
proof (induction ps arbitrary: acc rep)
  case Nil
  then show ?case by simp
next
  case (Cons p ps)
  obtain df o_type where p: "p = (df, o_type)" by (cases p)
  from Cons.prems obtain atm where atm: "identify_atm_strike cl df = Inr atm"
    unfolding p by (cases "identify_atm_strike cl df") simp_all
  from Cons.prems atm obtain out where out: "clean_single_dataframe cl df o_type atm 20 = Inr out"
    unfolding p by (cases "clean_single_dataframe cl df o_type atm 20") simp_all
  let ?rep = "rep\<lparr>removed_counts := removed_counts rep @ [int (length df) - int (length out)]\<rparr>"
  from Cons.prems atm out
  have "clean_pairs cl ps (acc @ [out]) ?rep = Inr (cleaned, rep')"
    unfolding p by (simp add: Let_def)
  from Cons.IH [OF this] obtain outs where outs:
    "cleaned = (acc @ [out]) @ outs"
    "list_all2 (\<lambda>p out. \<exists>atm. identify_atm_strike cl (fst p) = Inr atm
                  \<and> clean_single_dataframe cl (fst p) (snd p) atm 20 = Inr out) ps outs"
    "removed_counts rep' = removed_counts ?rep
        @ map2 (\<lambda>p out. int (length (fst p)) - int (length out)) ps outs"
    "arbitrage_types_found rep' = arbitrage_types_found ?rep"
    by blast
  show ?case
  proof (intro exI [of _ "out # outs"] conjI)
    show "cleaned = acc @ out # outs" using outs(1) by simp
    show "list_all2 (\<lambda>p out. \<exists>atm. identify_atm_strike cl (fst p) = Inr atm
                  \<and> clean_single_dataframe cl (fst p) (snd p) atm 20 = Inr out) (p # ps) (out # outs)"
      using outs(2) atm out by (simp add: p)
    show "removed_counts rep' = removed_counts rep
                @ map2 (\<lambda>p out. int (length (fst p)) - int (length out)) (p # ps) (out # outs)"
      using outs(3) by (simp add: p)
    show "arbitrage_types_found rep' = arbitrage_types_found rep" using outs(4) by simp
  qed
qed

lemma clean_pairs_Inl:
  assumes "clean_pairs cl ps acc rep = Inl e"
  shows "\<exists>i < length ps. identify_atm_strike cl (fst (ps ! i)) = Inl e
           \<or> (\<exists>atm. identify_atm_strike cl (fst (ps ! i)) = Inr atm
                 \<and> clean_single_dataframe cl (fst (ps ! i)) (snd (ps ! i)) atm 20 = Inl e)"
  using assms
proof (induction ps arbitrary: acc rep)
  case Nil
  then show ?case by simp
next
  case (Cons p ps)
  obtain df o_type where p: "p = (df, o_type)" by (cases p)
  show ?case
  proof (cases "identify_atm_strike cl df")
    case (Inl e')
    with Cons.prems have "e' = e" unfolding p by simp
    with Inl have "identify_atm_strike cl (fst ((p # ps) ! 0)) = Inl e" by (simp add: p)
    then show ?thesis by blast
  next
    case (Inr atm)
    show ?thesis
    proof (cases "clean_single_dataframe cl df o_type atm 20")
      case (Inl e')
      with Cons.prems Inr have "e' = e" unfolding p by simp
      with Inl Inr have "identify_atm_strike cl (fst ((p # ps) ! 0)) = Inr atm
          \<and> clean_single_dataframe cl (fst ((p # ps) ! 0)) (snd ((p # ps) ! 0)) atm 20 = Inl e"
        by (simp add: p)
      then show ?thesis by blast
    next
      case out: (Inr out)
      with Cons.prems Inr
      have "clean_pairs cl ps (acc @ [out])
              (rep\<lparr>removed_counts := removed_counts rep @ [int (length df) - int (length out)]\<rparr>)
            = Inl e"
        unfolding p by (simp add: Let_def)
      from Cons.IH [OF this] obtain i where i: "i < length ps"
        "identify_atm_strike cl (fst (ps ! i)) = Inl e
           \<or> (\<exists>atm. identify_atm_strike cl (fst (ps ! i)) = Inr atm
                 \<and> clean_single_dataframe cl (fst (ps ! i)) (snd (ps ! i)) atm 20 = Inl e)"
        by blast
      then have "Suc i < length (p # ps)"
        "identify_atm_strike cl (fst ((p # ps) ! Suc i)) = Inl e
           \<or> (\<exists>atm. identify_atm_strike cl (fst ((p # ps) ! Suc i)) = Inr atm
                 \<and> clean_single_dataframe cl (fst ((p # ps) ! Suc i)) (snd ((p # ps) ! Suc i)) atm 20 = Inl e)"
        by simp_all
      then show ?thesis by blast
    qed
  qed
qed

text \<open>
  Claim C9, as the code has it. \<open>clean_all_dataframes\<close> walks \<open>zip\<close> of the two lists and
  holds no check of their lengths. With \<open>n\<close> the shorter of the two lengths: when the call
  returns, it returns \<open>n\<close> cleaned tables and \<open>n\<close> removal counts, the \<open>i\<close>-th being the
  result of \<open>identify_atm_strike\<close> and \<open>clean_single_dataframe\<close> (cap 20) on the \<open>i\<close>-th
  table with the \<open>i\<close>-th side label, and the entries of the longer list beyond \<open>n\<close> are
  ignored; when it raises, the exception is the one that the processing of one of the
  first \<open>n\<close> pairs raises; and when each of the first \<open>n\<close> pairs can be processed, the call
  returns. A difference in length is never an error by itself.
\<close>

theorem clean_all_dataframes_zip:
  "(clean_all_dataframes list_of_dfs option_types spot_bid spot_ask r T = Inr (cleaned, rep) \<longrightarrow>
      length cleaned = min (length list_of_dfs) (length option_types)
      \<and> length (removed_counts rep) = min (length list_of_dfs) (length option_types)
      \<and> arbitrage_types_found rep = []
      \<and> (\<forall>i < min (length list_of_dfs) (length option_types).
            \<exists>atm. identify_atm_strike (init spot_bid spot_ask r T 0) (list_of_dfs ! i) = Inr atm
              \<and> clean_single_dataframe (init spot_bid spot_ask r T 0)
                    (list_of_dfs ! i) (option_types ! i) atm 20 = Inr (cleaned ! i)
              \<and> removed_counts rep ! i
                    = int (length (list_of_dfs ! i)) - int (length (cleaned ! i))))
   \<and> (clean_all_dataframes list_of_dfs option_types spot_bid spot_ask r T = Inl e \<longrightarrow>
        (\<exists>i < min (length list_of_dfs) (length option_types).
            identify_atm_strike (init spot_bid spot_ask r T 0) (list_of_dfs ! i) = Inl e
            \<or> (\<exists>atm. identify_atm_strike (init spot_bid spot_ask r T 0) (list_of_dfs ! i) = Inr atm
                  \<and> clean_single_dataframe (init spot_bid spot_ask r T 0)
                        (list_of_dfs ! i) (option_types ! i) atm 20 = Inl e)))
   \<and> ((\<forall>i < min (length list_of_dfs) (length option_types).
          \<exists>atm out. identify_atm_strike (init spot_bid spot_ask r T 0) (list_of_dfs ! i) = Inr atm
              \<and> clean_single_dataframe (init spot_bid spot_ask r T 0)
                    (list_of_dfs ! i) (option_types ! i) atm 20 = Inr out) \<longrightarrow>
        (\<exists>cleaned' rep'.
            clean_all_dataframes list_of_dfs option_types spot_bid spot_ask r T = Inr (cleaned', rep')))"
proof -
  define cl where "cl = init spot_bid spot_ask r T 0"
  define ps where "ps = zip list_of_dfs option_types"
  define n where "n = min (length list_of_dfs) (length option_types)"
  define rep0 where "rep0 = \<lparr>removed_counts = [], arbitrage_types_found = ([] :: string list)\<rparr>"
  have run: "clean_all_dataframes list_of_dfs option_types spot_bid spot_ask r T
               = clean_pairs cl ps [] rep0"
    by (simp add: clean_all_dataframes_def cl_def ps_def rep0_def)
  have len: "length ps = n" by (simp add: ps_def n_def)
  have nth: "fst (ps ! i) = list_of_dfs ! i \<and> snd (ps ! i) = option_types ! i" if "i < n" for i
    using that by (simp add: ps_def n_def)
  have A: "length cleaned = n \<and> length (removed_counts rep) = n \<and> arbitrage_types_found rep = []
      \<and> (\<forall>i < n. \<exists>atm. identify_atm_strike cl (list_of_dfs ! i) = Inr atm
              \<and> clean_single_dataframe cl (list_of_dfs ! i) (option_types ! i) atm 20
                   = Inr (cleaned ! i)
              \<and> removed_counts rep ! i
                    = int (length (list_of_dfs ! i)) - int (length (cleaned ! i)))"
    if "clean_pairs cl ps [] rep0 = Inr (cleaned, rep)"
  proof -
    from clean_pairs_Inr [OF that] obtain outs where outs:
      "cleaned = [] @ outs"
      "list_all2 (\<lambda>p out. \<exists>atm. identify_atm_strike cl (fst p) = Inr atm
                  \<and> clean_single_dataframe cl (fst p) (snd p) atm 20 = Inr out) ps outs"
      "removed_counts rep = removed_counts rep0
          @ map2 (\<lambda>p out. int (length (fst p)) - int (length out)) ps outs"
      "arbitrage_types_found rep = arbitrage_types_found rep0"
      by blast
    have c: "cleaned = outs" using outs(1) by simp
    from outs(2) have l: "length outs = n" using len by (simp add: list_all2_lengthD [symmetric])
    have rc: "removed_counts rep = map2 (\<lambda>p out. int (length (fst p)) - int (length out)) ps outs"
      using outs(3) by (simp add: rep0_def)
    have "\<exists>atm. identify_atm_strike cl (list_of_dfs ! i) = Inr atm
              \<and> clean_single_dataframe cl (list_of_dfs ! i) (option_types ! i) atm 20
                   = Inr (cleaned ! i)
              \<and> removed_counts rep ! i
                    = int (length (list_of_dfs ! i)) - int (length (cleaned ! i))"
      if i: "i < n" for i
    proof -
      from i len have ip: "i < length ps" by simp
      from list_all2_nthD [OF outs(2) ip] obtain atm where
        "identify_atm_strike cl (fst (ps ! i)) = Inr atm"
        "clean_single_dataframe cl (fst (ps ! i)) (snd (ps ! i)) atm 20 = Inr (outs ! i)"
        by blast
      moreover have "removed_counts rep ! i = int (length (fst (ps ! i))) - int (length (outs ! i))"
        unfolding rc using ip l len by simp
      ultimately show ?thesis using nth [OF i] c by auto
    qed
    with c l rc len outs(4) show ?thesis by (simp add: rep0_def)
  qed
  have B: "\<exists>i < n. identify_atm_strike cl (list_of_dfs ! i) = Inl e
            \<or> (\<exists>atm. identify_atm_strike cl (list_of_dfs ! i) = Inr atm
                  \<and> clean_single_dataframe cl (list_of_dfs ! i) (option_types ! i) atm 20 = Inl e)"
    if "clean_pairs cl ps [] rep0 = Inl e" for e
  proof -
    from clean_pairs_Inl [OF that] obtain i where i: "i < length ps"
      "identify_atm_strike cl (fst (ps ! i)) = Inl e
           \<or> (\<exists>atm. identify_atm_strike cl (fst (ps ! i)) = Inr atm
                 \<and> clean_single_dataframe cl (fst (ps ! i)) (snd (ps ! i)) atm 20 = Inl e)"
      by blast
    from i(1) len have "i < n" by simp
    with i(2) nth [OF this] show ?thesis by auto
  qed
  have C: "\<exists>cleaned' rep'. clean_pairs cl ps [] rep0 = Inr (cleaned', rep')"
    if ok: "\<forall>i < n. \<exists>atm out. identify_atm_strike cl (list_of_dfs ! i) = Inr atm
              \<and> clean_single_dataframe cl (list_of_dfs ! i) (option_types ! i) atm 20 = Inr out"
  proof (cases "clean_pairs cl ps [] rep0")
    case (Inl e')
    from B [OF this] obtain i where i: "i < n"
      "identify_atm_strike cl (list_of_dfs ! i) = Inl e'
            \<or> (\<exists>atm. identify_atm_strike cl (list_of_dfs ! i) = Inr atm
                  \<and> clean_single_dataframe cl (list_of_dfs ! i) (option_types ! i) atm 20 = Inl e')"
      by blast
    from ok i(1) obtain atm out where
      "identify_atm_strike cl (list_of_dfs ! i) = Inr atm"
      "clean_single_dataframe cl (list_of_dfs ! i) (option_types ! i) atm 20 = Inr out"
      by blast
    with i(2) show ?thesis by auto
  next
    case (Inr res)
    then show ?thesis by (cases res) simp
  qed
  from A B C show ?thesis unfolding run cl_def [symmetric] n_def [symmetric] by blast
qed

lemma batch_two_tables_one_side:
  "clean_all_dataframes [[(0, Q 100 5 6)], [(0, Q 100 5 6)]] [''call''] 100 100 0 1
     = Inr ([[(0, Q 100 5 6)]], \<lparr>removed_counts = [0], arbitrage_types_found = []\<rparr>)"
  unfolding clean_all_dataframes_def flat100_def [symmetric]
  by (simp add: single_row_atm single_row_clean)

lemma empty_table_atm: "identify_atm_strike cl [] = Inl ValueError"
  by (simp add: identify_atm_strike_def argmin_def strikes_def)

lemma batch_empty_first:
  "clean_all_dataframes [[], [(0, Q 100 5 6)]] [''call''] 100 100 0 1 = Inl ValueError"
  unfolding clean_all_dataframes_def by (simp add: empty_table_atm)

text \<open>The theorem at two calls with two tables and one side label: one returns the one
  cleaned table, the other raises what ATM selection raises on its empty first table.\<close>

theorem clean_all_dataframes_zip_witness:
  "clean_all_dataframes [[(0, Q 100 5 6)], [(0, Q 100 5 6)]] [''call''] 100 100 0 1
     = Inr ([[(0, Q 100 5 6)]], \<lparr>removed_counts = [0], arbitrage_types_found = []\<rparr>)
   \<and> length [[(0::nat, Q 100 5 6)]]
       = min (length [[(0::nat, Q 100 5 6)], [(0, Q 100 5 6)]]) (length [''call''])
   \<and> (\<exists>atm. identify_atm_strike (init 100 100 0 1 0) [(0, Q 100 5 6)] = Inr atm
          \<and> clean_single_dataframe (init 100 100 0 1 0) [(0, Q 100 5 6)] ''call'' atm 20
               = Inr [(0, Q 100 5 6)])
   \<and> clean_all_dataframes [[], [(0, Q 100 5 6)]] [''call''] 100 100 0 1 = Inl ValueError
   \<and> (identify_atm_strike (init 100 100 0 1 0) [] = Inl ValueError
        \<or> (\<exists>atm. identify_atm_strike (init 100 100 0 1 0) [] = Inr atm
              \<and> clean_single_dataframe (init 100 100 0 1 0) [] ''call'' atm 20 = Inl ValueError))"
proof -
  let ?t = "[(0::nat, Q 100 5 6)]"
  let ?rep = "\<lparr>removed_counts = [0::int], arbitrage_types_found = ([] :: string list)\<rparr>"
  note ok = batch_two_tables_one_side
  note bad = batch_empty_first
  from clean_all_dataframes_zip [of "[?t, ?t]" "[''call'']" 100 100 0 1 "[?t]" ?rep ValueError]
  have "clean_all_dataframes [?t, ?t] [''call''] 100 100 0 1 = Inr ([?t], ?rep) \<longrightarrow>
      length [?t] = min (length [?t, ?t]) (length [''call''])
      \<and> length (removed_counts ?rep) = min (length [?t, ?t]) (length [''call''])
      \<and> arbitrage_types_found ?rep = []
      \<and> (\<forall>i < min (length [?t, ?t]) (length [''call'']).
            \<exists>atm. identify_atm_strike (init 100 100 0 1 0) ([?t, ?t] ! i) = Inr atm
              \<and> clean_single_dataframe (init 100 100 0 1 0) ([?t, ?t] ! i) ([''call''] ! i) atm 20
                   = Inr ([?t] ! i)
              \<and> removed_counts ?rep ! i = int (length ([?t, ?t] ! i)) - int (length ([?t] ! i)))"
    by (rule conjunct1)
  note big = mp [OF this ok]
  from big have l: "length [?t] = min (length [?t, ?t]) (length [''call''])"
    by (elim conjE)
  from big have a: "\<forall>i < min (length [?t, ?t]) (length [''call'']).
            \<exists>atm. identify_atm_strike (init 100 100 0 1 0) ([?t, ?t] ! i) = Inr atm
              \<and> clean_single_dataframe (init 100 100 0 1 0) ([?t, ?t] ! i) ([''call''] ! i) atm 20
                   = Inr ([?t] ! i)
              \<and> removed_counts ?rep ! i = int (length ([?t, ?t] ! i)) - int (length ([?t] ! i))"
    by (elim conjE)
  have pos: "(0::nat) < min (length [?t, ?t]) (length [''call''])" by simp
  from a have "(0::nat) < min (length [?t, ?t]) (length [''call'']) \<longrightarrow>
             (\<exists>atm. identify_atm_strike (init 100 100 0 1 0) ([?t, ?t] ! 0) = Inr atm
              \<and> clean_single_dataframe (init 100 100 0 1 0) ([?t, ?t] ! 0) ([''call''] ! 0) atm 20
                   = Inr ([?t] ! 0)
              \<and> removed_counts ?rep ! 0 = int (length ([?t, ?t] ! 0)) - int (length ([?t] ! 0)))"
    by (rule spec)
  from mp [OF this pos] have "\<exists>atm. identify_atm_strike (init 100 100 0 1 0) ([?t, ?t] ! 0) = Inr atm
              \<and> clean_single_dataframe (init 100 100 0 1 0) ([?t, ?t] ! 0) ([''call''] ! 0) atm 20
                   = Inr ([?t] ! 0)
              \<and> removed_counts ?rep ! 0 = int (length ([?t, ?t] ! 0)) - int (length ([?t] ! 0))" .
  then have ex: "\<exists>atm. identify_atm_strike (init 100 100 0 1 0) ?t = Inr atm
          \<and> clean_single_dataframe (init 100 100 0 1 0) ?t ''call'' atm 20 = Inr ?t"
    by simp
  from clean_all_dataframes_zip [of "[[], ?t]" "[''call'']" 100 100 0 1 "[]" ?rep ValueError]
  have "clean_all_dataframes [[], ?t] [''call''] 100 100 0 1 = Inl ValueError \<longrightarrow>
        (\<exists>i < min (length [[], ?t]) (length [''call'']).
            identify_atm_strike (init 100 100 0 1 0) ([[], ?t] ! i) = Inl ValueError
            \<or> (\<exists>atm. identify_atm_strike (init 100 100 0 1 0) ([[], ?t] ! i) = Inr atm
                  \<and> clean_single_dataframe (init 100 100 0 1 0)
                        ([[], ?t] ! i) ([''call''] ! i) atm 20 = Inl ValueError))"
    by (elim conjE)
  from mp [OF this bad]
  have er: "identify_atm_strike (init 100 100 0 1 0) [] = Inl ValueError
        \<or> (\<exists>atm. identify_atm_strike (init 100 100 0 1 0) [] = Inr atm
              \<and> clean_single_dataframe (init 100 100 0 1 0) [] ''call'' atm 20 = Inl ValueError)"
    by simp
  from ok l ex bad er show ?thesis by simp
qed

text \<open>Two tables and one side label: the call returns normally, with one cleaned table and
  one removal count.\<close>

theorem clean_all_dataframes_mismatch_counterexample:
  "length [[(0::nat, Q 100 5 6)], [(0, Q 100 5 6)]] \<noteq> length [''call'']
   \<and> clean_all_dataframes [[(0, Q 100 5 6)], [(0, Q 100 5 6)]] [''call''] 100 100 0 1
       = Inr ([[(0, Q 100 5 6)]], \<lparr>removed_counts = [0], arbitrage_types_found = []\<rparr>)"
  using batch_two_tables_one_side by simp

section \<open>The cleaning loop\<close>

subsection \<open>The anchor's row is never dropped\<close>

lemma filter_quotes: "filter (\<lambda>q. strike q = atm) (map snd df) = map snd (filter (\<lambda>row. strike (snd row) = atm) df)"
  by (simp add: filter_map comp_def)

lemma atm_index_of_Inr:
  "atm_index_of df atm = Inr a \<longleftrightarrow>
     (\<exists>row rest. filter (\<lambda>row. strike (snd row) = atm) df = row # rest \<and> fst row = a)"
  by (auto simp: atm_index_of_def split: list.splits)

lemma atm_index_of_cases:
  "atm_index_of df atm = Inl IndexError \<or> (\<exists>a. atm_index_of df atm = Inr a)"
  by (auto simp: atm_index_of_def split: list.splits)

lemma atm_index_of_in_strikes:
  "atm_index_of df atm = Inr a \<Longrightarrow> atm \<in> set (strikes df)"
  using atm_index_of_absent [of atm df] by (cases "atm \<in> set (strikes df)") auto

lemma anchor_kept_refl: "atm_index_of df atm = Inr a \<Longrightarrow> anchor_kept atm df df"
  unfolding anchor_kept_def atm_index_of_Inr filter_quotes by auto

lemma anchor_kept_trans:
  "anchor_kept atm df d \<Longrightarrow> anchor_kept atm d out \<Longrightarrow> anchor_kept atm df out"
  unfolding anchor_kept_def by auto

lemma anchor_kept_reset_index: "anchor_kept atm df d \<Longrightarrow> anchor_kept atm df (reset_index d)"
  unfolding anchor_kept_def by simp

lemma drop_rows_keeps_anchor:
  assumes "atm_index_of df atm = Inr a" "a \<notin> set vs" "drop_rows df vs = Inr d"
  shows "anchor_kept atm df d"
proof -
  from assms(1) obtain row rest where
    f: "filter (\<lambda>row. strike (snd row) = atm) df = row # rest" and a: "fst row = a"
    unfolding atm_index_of_Inr by blast
  from assms(3) have d: "d = filter (\<lambda>row. fst row \<notin> set vs) df"
    by (simp add: drop_rows_def split: if_splits)
  have "filter (\<lambda>row. strike (snd row) = atm) d
          = filter (\<lambda>row. fst row \<notin> set vs) (filter (\<lambda>row. strike (snd row) = atm) df)"
    unfolding d by (simp add: conj_commute)
  also have "\<dots> = row # filter (\<lambda>row. fst row \<notin> set vs) rest"
    unfolding f using a assms(2) by simp
  finally have "filter (\<lambda>row. strike (snd row) = atm) d = row # filter (\<lambda>row. fst row \<notin> set vs) rest" .
  with f show ?thesis unfolding anchor_kept_def filter_quotes by simp
qed

lemma anchor_kept_atm_index:
  "anchor_kept atm df out \<Longrightarrow> \<exists>a'. atm_index_of out atm = Inr a'"
proof -
  assume "anchor_kept atm df out"
  then obtain q qs' where "filter (\<lambda>q. strike q = atm) (map snd out) = q # qs'"
    unfolding anchor_kept_def by auto
  then have "map snd (filter (\<lambda>row. strike (snd row) = atm) out) = q # qs'"
    by (simp only: filter_quotes)
  then obtain row rest where "filter (\<lambda>row. strike (snd row) = atm) out = row # rest"
    by (cases "filter (\<lambda>row. strike (snd row) = atm) out") auto
  then show ?thesis unfolding atm_index_of_Inr by blast
qed

lemma atm_not_in_all_violations: "a \<notin> set (all_violations c df ot a)"
  by (simp add: all_violations_def Let_def)

text \<open>What one iteration does when \<open>atm_index\<close> is the label of the first row at the anchor
  strike, as it is on entry and after every re-resolution: it stops clean, or \<open>drop\<close>
  raises, or it goes on with a table that still has the anchor's quote first among the
  quotes at the anchor strike.\<close>

lemma clean_iteration_cases:
  assumes "atm_index_of df atm = Inr a"
  shows "(all_violations c df ot a = [] \<and> clean_iteration c ot atm df a = Break CLEAN df)
       \<or> (all_violations c df ot a \<noteq> [] \<and> drop_rows df (all_violations c df ot a) = Inl KeyError
            \<and> clean_iteration c ot atm df a = Raise KeyError)
       \<or> (\<exists>d a'. all_violations c df ot a \<noteq> [] \<and> drop_rows df (all_violations c df ot a) = Inr d
            \<and> clean_iteration c ot atm df a = Continue (reset_index d) a'
            \<and> atm_index_of (reset_index d) atm = Inr a'
            \<and> anchor_kept atm df (reset_index d))"
proof (cases "all_violations c df ot a = []")
  case True
  then show ?thesis by (simp add: clean_iteration_def)
next
  case False
  show ?thesis
  proof (cases "drop_rows df (all_violations c df ot a)")
    case (Inl e)
    then have "e = KeyError" by (simp add: drop_rows_def split: if_splits)
    with Inl False show ?thesis by (simp add: clean_iteration_def)
  next
    case (Inr d)
    from drop_rows_keeps_anchor [OF assms atm_not_in_all_violations Inr]
    have k: "anchor_kept atm df (reset_index d)" by (rule anchor_kept_reset_index)
    from anchor_kept_atm_index [OF k] obtain a' where a': "atm_index_of (reset_index d) atm = Inr a'" ..
    from atm_index_of_in_strikes [OF a'] have "atm \<in> set (strikes (reset_index d))" .
    with Inr False a' have "clean_iteration c ot atm df a = Continue (reset_index d) a'"
      by (simp add: clean_iteration_def Let_def)
    with False Inr a' k show ?thesis by blast
  qed
qed

lemma clean_loop_invariant:
  assumes "atm_index_of df atm = Inr a" "clean_loop c ot atm k df a = Inr (st, out)"
  shows "st \<noteq> ANCHOR_LOST \<and> anchor_kept atm df out
         \<and> (\<exists>a'. atm_index_of out atm = Inr a' \<and> (st = CLEAN \<longrightarrow> all_violations c out ot a' = []))"
  using assms
proof (induction k arbitrary: df a)
  case 0
  then have "st = ITER_EXHAUSTED" "out = df" by simp_all
  with 0 anchor_kept_refl [OF 0(1)] show ?case by auto
next
  case (Suc k)
  from clean_iteration_cases [OF Suc.prems(1), of c ot]
  consider
    (clean) "all_violations c df ot a = []" "clean_iteration c ot atm df a = Break CLEAN df"
  | (err) "clean_iteration c ot atm df a = Raise KeyError"
  | (cont) d a' where "clean_iteration c ot atm df a = Continue (reset_index d) a'"
      "atm_index_of (reset_index d) atm = Inr a'" "anchor_kept atm df (reset_index d)"
    by blast
  then show ?case
  proof cases
    case clean
    with Suc.prems(2) have "st = CLEAN" "out = df" by simp_all
    with clean Suc.prems(1) anchor_kept_refl [OF Suc.prems(1)] show ?thesis by auto
  next
    case err
    with Suc.prems(2) show ?thesis by simp
  next
    case cont
    with Suc.prems(2) have "clean_loop c ot atm k (reset_index d) a' = Inr (st, out)" by simp
    from Suc.IH [OF cont(2) this] anchor_kept_trans [OF cont(3)] show ?thesis by blast
  qed
qed

lemma clean_run_invariant:
  assumes "clean_run c df ot atm k = Inr (st, out)"
  shows "st \<noteq> ANCHOR_LOST \<and> anchor_kept atm df out
         \<and> (\<exists>a'. atm_index_of out atm = Inr a' \<and> (st = CLEAN \<longrightarrow> all_violations c out ot a' = []))"
proof -
  from assms obtain a where a: "atm_index_of df atm = Inr a" "clean_loop c ot atm k df a = Inr (st, out)"
    by (auto simp: clean_run_def split: sum.splits)
  from clean_loop_invariant [OF this] show ?thesis .
qed

subsection \<open>Worked runs\<close>

lemmas evaluate = clean_single_dataframe_def clean_run_def atm_index_of_def
  clean_iteration_def all_violations_def check_vertical_no_arb_def
  check_butterfly_no_arb_def check_bounds_def bounds_at_def butterfly_at_def
  convexity_at_def monotonicity_at_def reset_index_def sort_values_def index_def
  strikes_def loc_def drop_rows_def Q_def eps_def eval_nat_numeral

lemma unsorted3_atm: "identify_atm_strike flat100 unsorted3 = Inr 100"
  by (simp add: identify_atm_strike_def argmin_def strikes_def Q_def unsorted3_def)

lemma unsorted3_vertical: "check_vertical_no_arb unsorted3 ''call'' = [2]"
  by (simp add: evaluate unsorted3_def)

lemma unsorted3_sorted_view: "loc (reset_index (sort_values unsorted3)) 2 = Q 110 8 9"
  by (simp add: evaluate unsorted3_def)

lemma unsorted3_butterfly: "check_butterfly_no_arb unsorted3 ''call'' = [1]"
  by (simp add: evaluate unsorted3_def)

lemma unsorted3_bounds: "check_bounds flat100 unsorted3 ''call'' = []"
  by (simp add: evaluate unsorted3_def)

lemma unsorted3_violations: "all_violations flat100 unsorted3 ''call'' 1 = [2]"
  by (simp add: all_violations_def unsorted3_vertical unsorted3_butterfly unsorted3_bounds)

lemma unsorted3_run:
  "clean_run flat100 unsorted3 ''call'' 100 20 = Inr (CLEAN, [(0, Q 110 8 9), (1, Q 100 5 6)])"
  by (simp add: evaluate unsorted3_def)

lemma sorted3_atm: "identify_atm_strike flat100 sorted3 = Inr 100"
  by (simp add: identify_atm_strike_def argmin_def strikes_def Q_def sorted3_def)

lemma sorted3_run:
  "clean_run flat100 sorted3 ''call'' 100 20 = Inr (CLEAN, [(0, Q 100 5 6), (1, Q 110 3 7)])"
  by (simp add: evaluate sorted3_def)

lemma pair2_atm: "identify_atm_strike flat100 pair2 = Inr 100"
  by (simp add: identify_atm_strike_def argmin_def strikes_def Q_def pair2_def)

lemma pair2_run: "clean_run flat100 pair2 ''call'' 100 20 = Inr (CLEAN, pair2)"
  by (simp add: evaluate pair2_def)







lemma cascade_atm: "identify_atm_strike flat100 cascade = Inr 100"
  by (simp add: identify_atm_strike_def argmin_def strikes_def Q_def cascade_def eval_nat_numeral)

lemma cascade_rerun:
  "clean_run flat100 [(0, Q 100 0 1), (1, Q 121 2 50)] ''call'' 100 20
     = Inr (CLEAN, [(0, Q 100 0 1)])"
  by (simp add: evaluate)

lemma cascade_run:
  "clean_run flat100 cascade ''call'' 100 20
     = Inr (ITER_EXHAUSTED, [(0, Q 100 0 1), (1, Q 121 2 50)])"
  by (simp add: evaluate cascade_def)

subsection \<open>Anchor invariance\<close>

text \<open>
  Claim C1. Let \<open>atm_strike\<close> be the strike that \<open>identify_atm_strike\<close> selects on the
  input table. If the cleaning run returns and did not leave by the \<open>ANCHOR_LOST\<close> exit,
  the quote of the input at that strike (the first one, should the strike occur twice) is
  a row of the returned table with the same strike, bid and ask, and is again the first
  quote at that strike.
\<close>

theorem anchor_invariance:
  assumes "identify_atm_strike c df = Inr atm_strike"
      and "clean_run c df option_type atm_strike max_iter = Inr (st, out)"
      and "st \<noteq> ANCHOR_LOST"
  shows "anchor_kept atm_strike df out \<and> clean_single_dataframe c df option_type atm_strike max_iter = Inr out"
  using clean_run_invariant [OF assms(2)] assms(2) by (simp add: clean_single_dataframe_def)

text \<open>The run on \<open>unsorted3\<close>: the anchor at strike 100 survives, though the run drops the
  quote at strike 90.\<close>

theorem anchor_invariance_witness:
  "identify_atm_strike flat100 unsorted3 = Inr 100
   \<and> clean_run flat100 unsorted3 ''call'' 100 20 = Inr (CLEAN, [(0, Q 110 8 9), (1, Q 100 5 6)])
   \<and> CLEAN \<noteq> ANCHOR_LOST
   \<and> anchor_kept 100 unsorted3 [(0, Q 110 8 9), (1, Q 100 5 6)]
   \<and> clean_single_dataframe flat100 unsorted3 ''call'' 100 20 = Inr [(0, Q 110 8 9), (1, Q 100 5 6)]"
proof -
  have ne: "CLEAN \<noteq> ANCHOR_LOST" by simp
  from anchor_invariance [OF unsorted3_atm unsorted3_run ne] unsorted3_atm unsorted3_run ne
  show ?thesis by simp
qed

subsection \<open>The anchor strike is never lost\<close>





subsection \<open>Removal by position\<close>

text \<open>
  Claim C3 asks that the quotes deleted in an iteration are exactly the quotes the three
  checkers flag, less the anchor, whatever the row order. On \<open>unsorted3\<close> (spot midpoint
  100, anchor at strike 100 with label 1) the vertical checker flags position 2 of the
  sorted view, which is the quote at strike 110; the butterfly checker flags position 1,
  the anchor; the bounds checker flags nothing. The violation set is \<open>[2]\<close>, and label 2 of
  the table is the quote at strike 90: that quote is dropped, the flagged quote at strike
  110 stays, and the run ends clean with it.
\<close>

theorem unsorted_table_drops_unflagged_quote:
  "identify_atm_strike flat100 unsorted3 = Inr 100
   \<and> check_vertical_no_arb unsorted3 ''call'' = [2]
   \<and> loc (reset_index (sort_values unsorted3)) 2 = Q 110 8 9
   \<and> check_butterfly_no_arb unsorted3 ''call'' = [1]
   \<and> check_bounds flat100 unsorted3 ''call'' = []
   \<and> all_violations flat100 unsorted3 ''call'' 1 = [2]
   \<and> unsorted3 ! 2 = (2, Q 90 12 13)
   \<and> clean_single_dataframe flat100 unsorted3 ''call'' 100 20
       = Inr [(0, Q 110 8 9), (1, Q 100 5 6)]"
proof -
  have "unsorted3 ! 2 = (2, Q 90 12 13)" by (simp add: unsorted3_def)
  moreover have "clean_single_dataframe flat100 unsorted3 ''call'' 100 20
       = Inr [(0, Q 110 8 9), (1, Q 100 5 6)]"
    unfolding clean_single_dataframe_def unsorted3_run by simp
  ultimately show ?thesis
    using unsorted3_atm unsorted3_vertical unsorted3_sorted_view unsorted3_butterfly
      unsorted3_bounds unsorted3_violations
    by simp
qed

subsection \<open>The anchor is selected again on the cleaned table\<close>

lemma before_anchor_rows:
  "before_anchor atm df = map snd (takeWhile (\<lambda>row. strike (snd row) \<noteq> atm) df)"
  by (simp add: before_anchor_def takeWhile_map comp_def)

lemma before_anchor_reset_index [simp]:
  "before_anchor atm (reset_index d) = before_anchor atm d"
  by (simp add: before_anchor_def)

lemma takeWhile_filter_first:
  assumes "filter (\<lambda>x. \<not> P x) xs = y # ys" "f y"
  shows "set (takeWhile P (filter f xs)) \<subseteq> set (takeWhile P xs)"
  using assms
proof (induction xs)
  case Nil
  then show ?case by simp
next
  case (Cons x xs)
  show ?case
  proof (cases "P x")
    case True
    with Cons.prems have "filter (\<lambda>x. \<not> P x) xs = y # ys" by simp
    from Cons.IH [OF this Cons.prems(2)] True show ?thesis by auto
  next
    case False
    with Cons.prems have "x = y" by simp
    with False Cons.prems(2) show ?thesis by simp
  qed
qed

lemma drop_rows_before_anchor:
  assumes "atm_index_of df atm = Inr a" "a \<notin> set vs" "drop_rows df vs = Inr d"
  shows "set (before_anchor atm d) \<subseteq> set (before_anchor atm df)"
proof -
  from assms(1) obtain row rest where
    f: "filter (\<lambda>row. strike (snd row) = atm) df = row # rest" and a: "fst row = a"
    unfolding atm_index_of_Inr by blast
  from assms(3) have d: "d = filter (\<lambda>row. fst row \<notin> set vs) df"
    by (simp add: drop_rows_def split: if_splits)
  have f': "filter (\<lambda>row. \<not> strike (snd row) \<noteq> atm) df = row # rest" using f by simp
  have k: "fst row \<notin> set vs" using a assms(2) by simp
  have "set (takeWhile (\<lambda>row. strike (snd row) \<noteq> atm) (filter (\<lambda>row. fst row \<notin> set vs) df))
          \<subseteq> set (takeWhile (\<lambda>row. strike (snd row) \<noteq> atm) df)"
    using f' k
    by (rule takeWhile_filter_first [where P = "\<lambda>row. strike (snd row) \<noteq> atm"
          and f = "\<lambda>row. fst row \<notin> set vs" and xs = df and y = row and ys = rest])
  then show ?thesis unfolding before_anchor_rows d by auto
qed

lemma drop_rows_subset:
  "drop_rows df vs = Inr d \<Longrightarrow> set (map snd (reset_index d)) \<subseteq> set (map snd df)"
  by (auto simp: drop_rows_def split: if_splits)

lemma clean_loop_before_anchor:
  assumes "atm_index_of df atm = Inr a" "clean_loop c ot atm k df a = Inr (st, out)"
  shows "set (before_anchor atm out) \<subseteq> set (before_anchor atm df)
         \<and> set (map snd out) \<subseteq> set (map snd df)"
  using assms
proof (induction k arbitrary: df a)
  case 0
  then show ?case by simp
next
  case (Suc k)
  from clean_iteration_cases [OF Suc.prems(1), of c ot]
  consider
    (clean) "clean_iteration c ot atm df a = Break CLEAN df"
  | (err) "clean_iteration c ot atm df a = Raise KeyError"
  | (cont) d a' where "drop_rows df (all_violations c df ot a) = Inr d"
      "clean_iteration c ot atm df a = Continue (reset_index d) a'"
      "atm_index_of (reset_index d) atm = Inr a'"
    by blast
  then show ?case
  proof cases
    case clean
    with Suc.prems show ?thesis by simp
  next
    case err
    with Suc.prems show ?thesis by simp
  next
    case cont
    from cont(2) Suc.prems(2)
    have "clean_loop c ot atm k (reset_index d) a' = Inr (st, out)" by simp
    from Suc.IH [OF cont(3) this]
    have ih: "set (before_anchor atm out) \<subseteq> set (before_anchor atm d)"
      "set (map snd out) \<subseteq> set (map snd (reset_index d))" by simp_all
    from drop_rows_before_anchor [OF Suc.prems(1) atm_not_in_all_violations cont(1)]
      drop_rows_subset [OF cont(1)] ih
    show ?thesis by blast
  qed
qed

lemma first_min_unique: "first_min xs m \<Longrightarrow> first_min xs m' \<Longrightarrow> m = m'"
  unfolding first_min_def by (metis linorder_neqE_nat not_less)

lemma argmin_eq_first_min: "first_min xs m \<Longrightarrow> argmin xs = Inr m"
proof -
  assume fm: "first_min xs m"
  then have "xs \<noteq> []" by (auto simp: first_min_def)
  from argmin_first_min [OF this] obtain m' where "argmin xs = Inr m'" "first_min xs m'" by blast
  with first_min_unique [OF fm] show ?thesis by simp
qed

text \<open>The position of the first quote at a strike that occurs in the table.\<close>

lemma before_anchor_position:
  assumes "atm \<in> set (strikes df)"
  shows "length (before_anchor atm df) < length df"
    and "strikes df ! length (before_anchor atm df) = atm"
    and "\<forall>j < length (before_anchor atm df). map snd df ! j \<in> set (before_anchor atm df)"
proof -
  let ?P = "\<lambda>q. strike q \<noteq> atm"
  let ?qs = "map snd df"
  from assms have ex: "\<exists>q \<in> set ?qs. \<not> ?P q" by (auto simp: strikes_def)
  have "takeWhile ?P ?qs \<noteq> ?qs"
  proof
    assume "takeWhile ?P ?qs = ?qs"
    then have "\<forall>q \<in> set ?qs. ?P q" by (simp only: takeWhile_eq_all_conv)
    with ex show False by blast
  qed
  moreover have "takeWhile ?P ?qs = take (length (takeWhile ?P ?qs)) ?qs"
    by (rule takeWhile_eq_take)
  ultimately have "length (takeWhile ?P ?qs) \<noteq> length ?qs"
    by (metis take_all order_refl)
  with length_takeWhile_le [of ?P ?qs] have lt: "length (takeWhile ?P ?qs) < length ?qs"
    by simp
  then show "length (before_anchor atm df) < length df" by (simp add: before_anchor_def)
  from nth_length_takeWhile [OF lt] lt
  show "strikes df ! length (before_anchor atm df) = atm"
    by (simp add: before_anchor_def strikes_def)
  show "\<forall>j < length (before_anchor atm df). map snd df ! j \<in> set (before_anchor atm df)"
  proof (intro allI impI)
    fix j assume j: "j < length (before_anchor atm df)"
    then have "takeWhile ?P ?qs ! j = ?qs ! j"
      unfolding before_anchor_def by (rule takeWhile_nth)
    with j show "map snd df ! j \<in> set (before_anchor atm df)"
      unfolding before_anchor_def by (metis nth_mem)
  qed
qed

text \<open>ATM selection finds the same strike on the table a run returns: no quote of the
  output is nearer to the spot midpoint than the anchor, and none that is as near comes
  before it.\<close>

lemma identify_atm_strike_after_cleaning:
  assumes "identify_atm_strike c df = Inr atm" "clean_run c df ot atm k = Inr (st, out)"
  shows "identify_atm_strike c out = Inr atm"
proof -
  define mid where "mid = (Sb c + Sa c) / 2"
  define dist :: "quote \<Rightarrow> real" where "dist = (\<lambda>q. \<bar>strike q - mid\<bar>)"
  define ds where "ds = map (\<lambda>k. \<bar>k - mid\<bar>) (strikes df)"
  define ds' where "ds' = map (\<lambda>k. \<bar>k - mid\<bar>) (strikes out)"
  have ds_nth: "ds ! j = dist (map snd df ! j)" if "j < length df" for j
    using that by (simp add: ds_def dist_def strikes_def)
  have ds'_nth: "ds' ! j = dist (map snd out ! j)" if "j < length out" for j
    using that by (simp add: ds'_def dist_def strikes_def)
  have st_nth: "strikes d ! j = strike (map snd d ! j)" if "j < length d" for d :: dataframe and j
    using that by (simp add: strikes_def)
  from assms(1) have "ds \<noteq> []"
    by (auto simp: identify_atm_strike_def ds_def mid_def argmin_def Let_def)
  from argmin_first_min [OF this] obtain m where m: "argmin ds = Inr m" "first_min ds m" by blast
  have len: "length ds = length df" by (simp add: ds_def strikes_def)
  from m(2) len have ml: "m < length df" by (simp add: first_min_def)
  from m(2) len have fm_le: "\<forall>j < length df. ds ! m \<le> ds ! j" by (simp add: first_min_def)
  from m(2) have fm_lt: "\<forall>j < m. ds ! m < ds ! j" by (simp add: first_min_def)
  from assms(1) m(1) have sm: "strikes df ! m = atm"
    by (simp add: identify_atm_strike_def Let_def ds_def mid_def)
  with ml have mem: "atm \<in> set (strikes df)"
    by (metis length_map nth_mem strikes_def)
  note pos = before_anchor_position [OF mem]
  define p where "p = length (before_anchor atm df)"
  have pm: "p = m"
  proof (rule ccontr)
    assume "p \<noteq> m"
    then consider "m < p" | "p < m" by linarith
    then show False
    proof cases
      case 1
      with pos(3) have "map snd df ! m \<in> set (before_anchor atm df)" by (simp add: p_def)
      then have "strike (map snd df ! m) \<noteq> atm"
        unfolding before_anchor_def by (auto dest: set_takeWhileD)
      with sm st_nth [OF ml] show False by simp
    next
      case 2
      with fm_lt have "ds ! m < ds ! p" by simp
      moreover have "ds ! p = \<bar>atm - mid\<bar>"
        using pos(1,2) by (simp add: ds_def p_def strikes_def)
      moreover have "ds ! m = \<bar>atm - mid\<bar>"
        using ml sm by (simp add: ds_def strikes_def)
      ultimately show False by simp
    qed
  qed
  have dm: "ds ! m = \<bar>atm - mid\<bar>" using ml sm by (simp add: ds_def strikes_def)
  have A: "\<bar>atm - mid\<bar> \<le> dist q" if "q \<in> set (map snd df)" for q
  proof -
    from that obtain j where j: "j < length df" "map snd df ! j = q"
      by (metis in_set_conv_nth length_map)
    with fm_le have "ds ! m \<le> ds ! j" by simp
    with ds_nth [OF j(1)] j(2) dm show ?thesis by simp
  qed
  have B: "\<bar>atm - mid\<bar> < dist q" if "q \<in> set (before_anchor atm df)" for q
  proof -
    from that obtain j where j: "j < length (before_anchor atm df)" "before_anchor atm df ! j = q"
      by (metis in_set_conv_nth)
    then have jq: "map snd df ! j = q"
      unfolding before_anchor_def by (simp add: takeWhile_nth)
    from j(1) have jm: "j < m" using pm by (simp add: p_def)
    with fm_lt have "ds ! m < ds ! j" by simp
    moreover from jm ml have "j < length df" by simp
    ultimately show ?thesis using ds_nth [of j] jq dm by simp
  qed
  from assms(2) obtain a where a: "atm_index_of df atm = Inr a"
    "clean_loop c ot atm k df a = Inr (st, out)"
    by (auto simp: clean_run_def split: sum.splits)
  from clean_loop_before_anchor [OF a]
  have sub: "set (before_anchor atm out) \<subseteq> set (before_anchor atm df)"
    "set (map snd out) \<subseteq> set (map snd df)" by simp_all
  from clean_run_invariant [OF assms(2)] obtain a' where "atm_index_of out atm = Inr a'" by blast
  then have mem': "atm \<in> set (strikes out)" by (rule atm_index_of_in_strikes)
  note pos' = before_anchor_position [OF mem']
  define p' where "p' = length (before_anchor atm out)"
  have p'l: "p' < length out" using pos'(1) by (simp add: p'_def)
  have dp': "ds' ! p' = \<bar>atm - mid\<bar>"
    using pos'(1,2) by (simp add: ds'_def p'_def strikes_def)
  have "first_min ds' p'"
    unfolding first_min_def
  proof (intro conjI allI impI)
    show "p' < length ds'" using p'l by (simp add: ds'_def strikes_def)
  next
    fix j assume "j < length ds'"
    then have j: "j < length out" by (simp add: ds'_def strikes_def)
    then have "map snd out ! j \<in> set (map snd out)" by (metis length_map nth_mem)
    with sub(2) have "map snd out ! j \<in> set (map snd df)" by blast
    from A [OF this] ds'_nth [OF j] dp' show "ds' ! p' \<le> ds' ! j" by simp
  next
    fix j assume jp: "j < p'"
    with pos'(3) have "map snd out ! j \<in> set (before_anchor atm out)" by (simp add: p'_def)
    with sub(1) have "map snd out ! j \<in> set (before_anchor atm df)" by blast
    moreover from jp p'l have "j < length out" by simp
    ultimately show "ds' ! p' < ds' ! j" using B ds'_nth dp' by simp
  qed
  then have "argmin ds' = Inr p'" by (rule argmin_eq_first_min)
  with pos'(2) show ?thesis
    by (simp add: identify_atm_strike_def Let_def ds'_def mid_def p'_def)
qed

subsection \<open>Idempotence\<close>

text \<open>
  Claim C4, as the code has it. If a run of the cleaner leaves by the \<open>CLEAN\<close> exit with
  the table \<open>out\<close>, then cleaning \<open>out\<close> again with the same pricing context, side and
  anchor strike returns \<open>out\<close> itself, for every iteration cap, and with a cap of at least
  one it leaves by the \<open>CLEAN\<close> exit in its first iteration, so that nothing is removed.
  The anchor strike is the same in the second run also when it is selected anew: if
  \<open>identify_atm_strike\<close> selects \<open>atm_strike\<close> on the input, it selects it on \<open>out\<close>.
\<close>

theorem clean_is_fixed_point:
  assumes "clean_run c df option_type atm_strike max_iter = Inr (CLEAN, out)"
  shows "clean_single_dataframe c out option_type atm_strike max_iter' = Inr out
       \<and> clean_run c out option_type atm_strike (Suc max_iter') = Inr (CLEAN, out)
       \<and> (identify_atm_strike c df = Inr atm_strike
            \<longrightarrow> identify_atm_strike c out = Inr atm_strike)"
proof -
  from clean_run_invariant [OF assms] obtain a' where
    a': "atm_index_of out atm_strike = Inr a'" "all_violations c out option_type a' = []" by blast
  then have it: "clean_iteration c option_type atm_strike out a' = Break CLEAN out"
    by (simp add: clean_iteration_def)
  have "clean_loop c option_type atm_strike k out a' = Inr (if k = 0 then ITER_EXHAUSTED else CLEAN, out)" for k
    by (cases k) (simp_all add: it)
  from this [of max_iter'] this [of "Suc max_iter'"] a'(1)
  have "clean_single_dataframe c out option_type atm_strike max_iter' = Inr out
       \<and> clean_run c out option_type atm_strike (Suc max_iter') = Inr (CLEAN, out)"
    by (simp add: clean_single_dataframe_def clean_run_def del: clean_loop.simps)
  moreover have "identify_atm_strike c out = Inr atm_strike"
    if "identify_atm_strike c df = Inr atm_strike"
    using that assms by (rule identify_atm_strike_after_cleaning)
  ultimately show ?thesis by blast
qed

theorem clean_is_fixed_point_witness:
  "clean_run flat100 sorted3 ''call'' 100 20 = Inr (CLEAN, [(0, Q 100 5 6), (1, Q 110 3 7)])
   \<and> identify_atm_strike flat100 sorted3 = Inr 100
   \<and> clean_single_dataframe flat100 [(0, Q 100 5 6), (1, Q 110 3 7)] ''call'' 100 20
       = Inr [(0, Q 100 5 6), (1, Q 110 3 7)]
   \<and> identify_atm_strike flat100 [(0, Q 100 5 6), (1, Q 110 3 7)] = Inr 100"
  using clean_is_fixed_point [OF sorted3_run, of 20] sorted3_run sorted3_atm
  by simp

text \<open>A run that stops because the 20 iterations are used up need not be a fixed point.
  On \<open>cascade\<close> every iteration removes one quote, the one next above the anchor; after 20
  iterations the quote at strike 121 is still there, and a second run removes it.\<close>

theorem idempotence_counterexample:
  "identify_atm_strike flat100 cascade = Inr 100
   \<and> clean_single_dataframe flat100 cascade ''call'' 100 20
       = Inr [(0, Q 100 0 1), (1, Q 121 2 50)]
   \<and> clean_single_dataframe flat100 [(0, Q 100 0 1), (1, Q 121 2 50)] ''call'' 100 20
       = Inr [(0, Q 100 0 1)]
   \<and> [(0::nat, Q 100 0 1)] \<noteq> [(0, Q 100 0 1), (1, Q 121 2 50)]"
  unfolding clean_single_dataframe_def cascade_run cascade_rerun cascade_atm by simp

section \<open>Monotonicity of a clean table\<close>

lemma drop_rows_sorted:
  assumes "sorted_wrt (<) (strikes df)" "drop_rows df vs = Inr d"
  shows "sorted_wrt (<) (strikes (reset_index d))"
proof -
  from assms(2) have d: "d = filter (\<lambda>row. fst row \<notin> set vs) df"
    by (simp add: drop_rows_def split: if_splits)
  have "sorted_wrt (\<lambda>r s. strike (snd r) < strike (snd s)) df"
    using assms(1) by (simp add: strikes_def sorted_wrt_map)
  then have "sorted_wrt (\<lambda>r s. strike (snd r) < strike (snd s)) d"
    unfolding d by (rule sorted_wrt_filter)
  then have "sorted_wrt (<) (strikes d)" by (simp add: strikes_def sorted_wrt_map)
  then show ?thesis by simp
qed

lemma clean_loop_ascending:
  assumes "atm_index_of df atm = Inr a" "ascending df" "clean_loop c ot atm k df a = Inr (st, out)"
  shows "ascending out"
  using assms
proof (induction k arbitrary: df a)
  case 0
  then show ?case by simp
next
  case (Suc k)
  from clean_iteration_cases [OF Suc.prems(1), of c ot]
  consider
    (clean) "clean_iteration c ot atm df a = Break CLEAN df"
  | (err) "clean_iteration c ot atm df a = Raise KeyError"
  | (cont) d a' where "drop_rows df (all_violations c df ot a) = Inr d"
      "clean_iteration c ot atm df a = Continue (reset_index d) a'"
      "atm_index_of (reset_index d) atm = Inr a'"
    by blast
  then show ?case
  proof cases
    case clean
    with Suc.prems show ?thesis by simp
  next
    case err
    with Suc.prems show ?thesis by simp
  next
    case cont
    from Suc.prems(2) have "sorted_wrt (<) (strikes df)" by (simp add: ascending_def)
    from drop_rows_sorted [OF this cont(1)] have "ascending (reset_index d)"
      by (simp add: ascending_def)
    moreover from cont(2) Suc.prems(3)
    have "clean_loop c ot atm k (reset_index d) a' = Inr (st, out)" by simp
    ultimately show ?thesis using Suc.IH [OF cont(3)] by blast
  qed
qed

lemma ascending_views:
  assumes "ascending df"
  shows "reset_index (sort_values df) = df"
proof -
  from assms have "sorted (strikes df)"
    unfolding ascending_def by (simp add: strict_sorted_imp_sorted)
  then have "sort_values df = df" by (rule sort_values_sorted)
  with assms show ?thesis unfolding ascending_def by (simp add: reset_index_default)
qed

lemma ascending_label:
  assumes "ascending df" "row \<in> set df"
  shows "fst row < length df \<and> df ! fst row = row"
proof -
  from assms(2) obtain j where j: "j < length df" "df ! j = row" by (auto simp: in_set_conv_nth)
  from assms(1) have "map fst df ! j = [0..<length df] ! j" unfolding ascending_def index_def by simp
  with j have "fst row = j" by simp
  with j show ?thesis by simp
qed

lemma ascending_atm_index:
  assumes "ascending df" "atm_index_of df atm = Inr a"
  shows "a < length df \<and> strike (loc df a) = atm"
proof -
  from assms(2) obtain row rest where
    f: "filter (\<lambda>row. strike (snd row) = atm) df = row # rest" and a: "fst row = a"
    unfolding atm_index_of_Inr by blast
  have "row \<in> set (filter (\<lambda>row. strike (snd row) = atm) df)" unfolding f by simp
  then have r: "row \<in> set df" "strike (snd row) = atm" by simp_all
  from ascending_label [OF assms(1) r(1)] a r(2) show ?thesis by (simp add: loc_def)
qed

lemma vertical_flags_higher_strike:
  assumes "ascending df" "i + 1 < length df"
    and "if ot = ''call'' then ask (loc df i) < bid (loc df (i + 1))
         else bid (loc df i) > ask (loc df (i + 1))"
  shows "i + 1 \<in> set (check_vertical_no_arb df ot)"
proof -
  have ix: "index df ! (i + 1) = i + 1"
    using assms(1,2) unfolding ascending_def by simp
  have "monotonicity_at df ot i = [i + 1]"
    using assms(3) unfolding monotonicity_at_def ix by (simp split: if_splits)
  moreover have "i \<in> set [0..<length df - 1]" using assms(2) by simp
  ultimately have "i + 1 \<in> set (concat (map (monotonicity_at df ot) [0..<length df - 1]))"
    unfolding set_concat by force
  then show ?thesis
    unfolding check_vertical_no_arb_def ascending_views [OF assms(1)] by (simp add: Let_def)
qed

lemma no_violations_vertical:
  assumes "all_violations c df ot a = []"
  shows "set (check_vertical_no_arb df ot) \<subseteq> {a}"
proof -
  from assms have "set (removeAll a (remdups (check_vertical_no_arb df ot
      @ check_butterfly_no_arb df ot @ check_bounds c df ot))) = {}"
    by (simp add: all_violations_def Let_def)
  then show ?thesis by auto
qed

text \<open>
  Claim C5, as the code has it. Let the input table be in strictly ascending order of
  strike with the default index. If the run leaves by the \<open>CLEAN\<close> exit, then for every two
  adjacent rows of the returned table whose higher strike is not the anchor strike the
  monotonicity inequality holds exactly: for calls the ask at the lower strike is at least
  the bid at the higher strike, for any other side the bid at the lower strike is at most
  the ask at the higher strike. The pair whose higher strike is the anchor is exempt: a
  violation there flags the anchor, which is never removed.
\<close>

theorem monotone_after_clean:
  assumes "index df = [0..<length df]" and "sorted_wrt (<) (strikes df)"
      and "clean_run c df option_type atm_strike max_iter = Inr (CLEAN, out)"
      and "i + 1 < length out" and "strike (loc out (i + 1)) \<noteq> atm_strike"
  shows "if option_type = ''call'' then ask (loc out i) \<ge> bid (loc out (i + 1))
         else bid (loc out i) \<le> ask (loc out (i + 1))"
proof -
  from assms(3) obtain a where a: "atm_index_of df atm_strike = Inr a"
    "clean_loop c option_type atm_strike max_iter df a = Inr (CLEAN, out)"
    by (auto simp: clean_run_def split: sum.splits)
  have asc: "ascending df" using assms(1,2) by (simp add: ascending_def)
  have out: "ascending out" by (rule clean_loop_ascending [OF a(1) asc a(2)])
  from clean_run_invariant [OF assms(3)] obtain a' where
    a': "atm_index_of out atm_strike = Inr a'" "all_violations c out option_type a' = []" by blast
  show ?thesis
  proof (rule ccontr)
    assume "\<not> ?thesis"
    then have "if option_type = ''call'' then ask (loc out i) < bid (loc out (i + 1))
         else bid (loc out i) > ask (loc out (i + 1))" by (simp split: if_splits)
    from vertical_flags_higher_strike [OF out assms(4) this] no_violations_vertical [OF a'(2)]
    have "i + 1 = a'" by auto
    with ascending_atm_index [OF out a'(1)] assms(5) show False by simp
  qed
qed

lemma sorted3_index: "index sorted3 = [0..<length sorted3]"
  by (simp add: index_def sorted3_def)

lemma sorted3_strikes: "sorted_wrt (<) (strikes sorted3)"
  by (simp add: strikes_def sorted3_def Q_def)

theorem monotone_after_clean_witness:
  "index sorted3 = [0..<length sorted3]
   \<and> sorted_wrt (<) (strikes sorted3)
   \<and> clean_run flat100 sorted3 ''call'' 100 20 = Inr (CLEAN, [(0, Q 100 5 6), (1, Q 110 3 7)])
   \<and> 0 + 1 < length [(0::nat, Q 100 5 6), (1, Q 110 3 7)]
   \<and> strike (loc [(0, Q 100 5 6), (1, Q 110 3 7)] (0 + 1)) \<noteq> 100
   \<and> ask (loc [(0, Q 100 5 6), (1, Q 110 3 7)] 0) \<ge> bid (loc [(0, Q 100 5 6), (1, Q 110 3 7)] (0 + 1))"
proof -
  have l: "0 + 1 < length [(0::nat, Q 100 5 6), (1, Q 110 3 7)]" by simp
  have s: "strike (loc [(0, Q 100 5 6), (1, Q 110 3 7)] (0 + 1)) \<noteq> 100"
    by (simp add: loc_def Q_def)
  from monotone_after_clean [OF sorted3_index sorted3_strikes sorted3_run l s]
  have "ask (loc [(0, Q 100 5 6), (1, Q 110 3 7)] 0) \<ge> bid (loc [(0, Q 100 5 6), (1, Q 110 3 7)] (0 + 1))"
    by simp
  with sorted3_index sorted3_strikes sorted3_run l s show ?thesis by simp
qed

text \<open>On \<open>pair2\<close> the anchor is the higher strike of the only pair. The ask at 90 is below
  the bid at 100 by more than the tolerance, the violation set is empty once the anchor
  is taken out of it, and the run ends clean at its first iteration.\<close>

theorem monotone_after_clean_anchor_counterexample:
  "index pair2 = [0..<length pair2]
   \<and> sorted_wrt (<) (strikes pair2)
   \<and> identify_atm_strike flat100 pair2 = Inr 100
   \<and> clean_run flat100 pair2 ''call'' 100 20 = Inr (CLEAN, pair2)
   \<and> 0 + 1 < length pair2
   \<and> ask (loc pair2 0) < bid (loc pair2 (0 + 1)) - eps"
proof -
  have "index pair2 = [0..<length pair2]" by (simp add: index_def pair2_def)
  moreover have "sorted_wrt (<) (strikes pair2)" by (simp add: strikes_def pair2_def Q_def)
  moreover have "0 + 1 < length pair2" by (simp add: pair2_def)
  moreover have "ask (loc pair2 0) < bid (loc pair2 (0 + 1)) - eps"
    by (simp add: loc_def pair2_def Q_def eps_def)
  ultimately show ?thesis using pair2_atm pair2_run by simp
qed

end
